theory Spec2Isabelle
  imports Main "HOL-Library.Sublist"
begin

section \<open>Footnote markers in rich text: the embedding of \<open>wagtail_footnotes\<close>\<close>

text \<open>
  The development follows \<open>src/wagtail_footnotes/blocks.py\<close> and
  \<open>src/wagtail_footnotes/templatetags/wagtailfootnotes_tags.py\<close>.
  Python strings are lists of characters; the pattern of the module is ASCII and its only
  character class is \<open>.\<close> (anything but a line feed), so matching on UTF-8 bytes and matching
  on code points select the same markers.
\<close>

subsection \<open>Errors, strings and numbers\<close>

datatype error = KeyError | ValidationError | AttributeError | ValueError

text \<open>A Python \<open>str\<close> and Django's \<open>SafeString\<close>, the result of \<open>mark_safe\<close>.\<close>

datatype markup = Str string | SafeString string

fun str_of :: "markup \<Rightarrow> string" where
  "str_of (Str s) = s"
| "str_of (SafeString s) = s"

fun is_safe :: "markup \<Rightarrow> bool" where
  "is_safe (Str s) = False"
| "is_safe (SafeString s) = True"

definition mark_safe :: "string \<Rightarrow> markup" where
  "mark_safe s = SafeString s"

definition digit_char :: "nat \<Rightarrow> char" where
  "digit_char d = ''0123456789'' ! d"

text \<open>The decimal numeral that an f-string prints for a non-negative integer.\<close>

function str_nat :: "nat \<Rightarrow> string" where
  "str_nat n = (if n < 10 then [digit_char n] else str_nat (n div 10) @ [digit_char (n mod 10)])"
  by pat_completeness auto
termination
  by (relation "measure id") auto

declare str_nat.simps [simp del]

subsection \<open>The marker pattern\<close>

text \<open>
  \<open>FIND_FOOTNOTE_TAG = re.compile(r'<footnote id="(.*?)">.*?</footnote>')\<close>.
  The pattern is a literal, a lazy group, a literal, a lazy run and a literal.
\<close>

definition OPEN_TAG :: string where
  \<open>OPEN_TAG = ''<footnote id="''\<close>

definition ID_END :: string where
  \<open>ID_END = ''">''\<close>

definition CLOSE_TAG :: string where
  \<open>CLOSE_TAG = ''</footnote>''\<close>

definition newline :: char where
  "newline = CHR 0x0A"

text \<open>
  \<open>.*?lit\<close> at the head of the input: the lazy run takes as few characters as possible,
  none of them a line feed; the result is the input left after \<open>lit\<close>.
\<close>

fun lazy_until :: "string \<Rightarrow> string \<Rightarrow> string option" where
  "lazy_until lit [] = (if lit = [] then Some [] else None)"
| "lazy_until lit (c # cs) =
     (if prefix lit (c # cs) then Some (drop (length lit) (c # cs))
      else if c = newline then None
      else lazy_until lit cs)"

text \<open>
  \<open>(.*?)">.*?</footnote>\<close> at the head of the input, with backtracking: the group grows by
  one character whenever the rest of the pattern fails after it. The result is the group
  and the input left after the match.
\<close>

fun match_group :: "string \<Rightarrow> (string \<times> string) option" where
  "match_group [] = None"
| "match_group (c # cs) =
     (case (if prefix ID_END (c # cs) then lazy_until CLOSE_TAG (drop (length ID_END) (c # cs))
            else None) of
        Some rest \<Rightarrow> Some ([], rest)
      | None \<Rightarrow>
          (if c = newline then None
           else (case match_group cs of
                   None \<Rightarrow> None
                 | Some (g, rest) \<Rightarrow> Some (c # g, rest))))"

text \<open>The whole pattern anchored at the head of the input.\<close>

definition match_at :: "string \<Rightarrow> (string \<times> string) option" where
  "match_at s = (if prefix OPEN_TAG s then match_group (drop (length OPEN_TAG) s) else None)"

text \<open>
  \<open>re.sub\<close> walks the input from the left; where the pattern matches it calls the
  replacement function with the match and goes on after the match, elsewhere it copies one
  character. The pieces are the copied characters and the matches (by their group 1).
\<close>

datatype piece = Text char | Marker string

function scan :: "string \<Rightarrow> piece list" where
  "scan [] = []"
| "scan (c # cs) =
     (case match_at (c # cs) of
        Some (g, rest) \<Rightarrow> Marker g # scan rest
      | None \<Rightarrow> Text c # scan cs)"
  by pat_completeness auto
termination
proof (relation "measure length")
  show "wf (measure length)" by simp
next
  fix c :: char and cs m g rest
  assume m: "match_at (c # cs) = Some m" and gr: "(g, rest) = m"
  have lazy: "lazy_until lit s = Some r \<Longrightarrow> length r \<le> length s" for lit s r
    by (induction s) (auto split: if_splits)
  have grp: "match_group s = Some (g', r) \<Longrightarrow> length r < length s" for s g' r
  proof (induction s arbitrary: g' r)
    case Nil
    then show ?case by simp
  next
    case (Cons d ds)
    show ?case
    proof (cases "prefix ID_END (d # ds) \<and> lazy_until CLOSE_TAG (drop (length ID_END) (d # ds)) \<noteq> None")
      case True
      then obtain r' where r': "lazy_until CLOSE_TAG (drop (length ID_END) (d # ds)) = Some r'"
        by auto
      with True Cons.prems have "r = r'" by simp
      moreover from r' have "length r' \<le> length (drop (length ID_END) (d # ds))"
        by (rule lazy)
      ultimately show ?thesis by (simp add: ID_END_def)
    next
      case False
      with Cons.prems obtain g'' where "match_group ds = Some (g'', r)"
        by (auto split: if_splits option.splits)
      then have "length r < length ds" by (rule Cons.IH)
      then show ?thesis by simp
    qed
  qed
  from m gr have "match_group (drop (length OPEN_TAG) (c # cs)) = Some (g, rest)"
    by (auto simp: match_at_def split: if_splits)
  then have "length rest < length (drop (length OPEN_TAG) (c # cs))" by (rule grp)
  then show "(rest, c # cs) \<in> measure length" by simp
next
  fix c :: char and cs
  show "(cs, c # cs) \<in> measure length" by simp
qed

text \<open>
  The replacement function is called once for each match, in order, on the state the
  earlier calls left; an exception it raises ends the substitution, with the state as it
  is then.
\<close>

fun sub_pieces :: "(string \<Rightarrow> 's \<Rightarrow> (error + string) \<times> 's) \<Rightarrow> piece list \<Rightarrow> 's \<Rightarrow> (error + string) \<times> 's" where
  "sub_pieces repl [] st = (Inr [], st)"
| "sub_pieces repl (Text c # ps) st =
     (case sub_pieces repl ps st of
        (Inl e, st') \<Rightarrow> (Inl e, st')
      | (Inr out, st') \<Rightarrow> (Inr (c # out), st'))"
| "sub_pieces repl (Marker g # ps) st =
     (case repl g st of
        (Inl e, st') \<Rightarrow> (Inl e, st')
      | (Inr r, st') \<Rightarrow>
          (case sub_pieces repl ps st' of
             (Inl e, st'') \<Rightarrow> (Inl e, st'')
           | (Inr out, st'') \<Rightarrow> (Inr (r @ out), st'')))"

definition re_sub :: "(string \<Rightarrow> 's \<Rightarrow> (error + string) \<times> 's) \<Rightarrow> string \<Rightarrow> 's \<Rightarrow> (error + string) \<times> 's" where
  "re_sub repl html st = sub_pieces repl (scan html) st"

subsection \<open>Footnotes, pages and blocks\<close>

text \<open>
  Modelled from the spec: the \<open>Footnote\<close> model class (\<open>wagtail_footnotes/models.py\<close>) is
  not among the sources. A footnote is a row with a primary key, the identifier \<open>uuid\<close>
  and a text. Python's \<open>==\<close> on two rows compares primary keys, which for rows read from
  one table agrees with equality of the records.
\<close>

record footnote =
  pk :: nat
  uuid :: string
  footnote_text :: string

text \<open>
  The part of a page the module touches: \<open>page.footnotes.all()\<close>, the rows of the page in
  the order the database returns them, and the two attributes the rewriter attaches,
  \<open>None\<close> while the attribute is not set. \<open>footnotes_references\<close> is a
  \<open>defaultdict(list)\<close>.
\<close>

record page =
  footnotes :: "footnote list"
  footnotes_list :: "footnote list option"
  footnotes_references :: "(string \<rightharpoonup> string list) option"

text \<open>Indexing a \<open>defaultdict(list)\<close> inserts the empty list under a missing key.\<close>

definition dd_getitem :: "(string \<rightharpoonup> string list) \<Rightarrow> string \<Rightarrow> string list \<times> (string \<rightharpoonup> string list)" where
  "dd_getitem d k = (case d k of None \<Rightarrow> ([], d(k \<mapsto> [])) | Some v \<Rightarrow> (v, d))"

text \<open>\<open>d.get(k, default)\<close> reads only.\<close>

definition dd_get :: "(string \<rightharpoonup> string list) \<Rightarrow> string \<Rightarrow> string list \<Rightarrow> string list \<times> (string \<rightharpoonup> string list)" where
  "dd_get d k dflt = (case d k of None \<Rightarrow> (dflt, d) | Some v \<Rightarrow> (v, d))"

text \<open>\<open>xs.index(x)\<close>: the first position of \<open>x\<close>, \<open>ValueError\<close> when there is none.\<close>

fun list_index :: "'a list \<Rightarrow> 'a \<Rightarrow> error + nat" where
  "list_index [] x = Inl ValueError"
| "list_index (y # ys) x =
     (if y = x then Inr 0
      else (case list_index ys x of Inl e \<Rightarrow> Inl e | Inr i \<Rightarrow> Inr (Suc i)))"

text \<open>Values and objects of the rendering context; a page is reached by reference.\<close>

type_synonym addr = nat

datatype pyval = NoneVal | StrVal string | Ref addr

datatype pyobj = PageObj page | OtherObj

type_synonym heap = "addr \<rightharpoonup> pyobj"

type_synonym context_dict = "string \<rightharpoonup> pyval"

text \<open>
  The block: \<open>self.features\<close> and \<open>self.footnotes\<close> (the field is \<open>block_footnotes\<close> here,
  the name \<open>footnotes\<close> being the page's).
\<close>

record block =
  features :: "string list"
  block_footnotes :: "string \<rightharpoonup> footnote"

text \<open>
  \<open>RichTextBlockWithFootnotes.__init__\<close>. The base class stores the keyword argument
  \<open>features\<close> (default \<open>None\<close>) in \<open>self.features\<close>.
\<close>

definition init :: "string list option \<Rightarrow> block" where
  "init features_kwarg =
     (let fs = (case features_kwarg of None \<Rightarrow> [] | Some l \<Rightarrow> (if l = [] then [] else l));
          fs' = (if ''footnotes'' \<notin> set fs then fs @ [''footnotes''] else fs)
      in \<lparr>features = fs', block_footnotes = Map.empty\<rparr>)"

text \<open>
  \<open>Block.get_context\<close> of the framework: the parent context, or an empty one, with the
  keys \<open>self\<close> and \<open>value\<close> set to the value.
\<close>

definition get_context :: "pyval \<Rightarrow> context_dict option \<Rightarrow> context_dict" where
  "get_context v parent_context =
     ((case parent_context of None \<Rightarrow> Map.empty | Some c \<Rightarrow> c)(''self'' \<mapsto> v, ''value'' \<mapsto> v))"

subsection \<open>Numbering and rewriting\<close>

text \<open>
  \<open>process_footnote\<close>: the index and the page after the call. The lookup in
  \<open>self.footnotes\<close> raises \<open>KeyError\<close> and the read of \<open>page.footnotes_list\<close> raises
  \<open>AttributeError\<close> before the list is touched; \<open>index\<close> is called on a list that holds the
  footnote.
\<close>

definition process_footnote :: "block \<Rightarrow> string \<Rightarrow> page \<Rightarrow> error + (nat \<times> page)" where
  "process_footnote self footnote_id page =
     (case block_footnotes self footnote_id of
        None \<Rightarrow> Inl KeyError
      | Some fn \<Rightarrow>
          (case footnotes_list page of
             None \<Rightarrow> Inl AttributeError
           | Some l \<Rightarrow>
               (let l' = (if fn \<notin> set l then l @ [fn] else l) in
                (case list_index l' fn of
                   Inl e \<Rightarrow> Inl e
                 | Inr i \<Rightarrow> Inr (i + 1, page\<lparr>footnotes_list := Some l'\<rparr>)))))"

text \<open>
  The two f-strings of \<open>replace_tag\<close>: \<open>footnote-source-{index}-{len(...)}\<close> and the
  anchor around it.
\<close>

definition link_id_of :: "nat \<Rightarrow> nat \<Rightarrow> string" where
  "link_id_of index occurrence = ''footnote-source-'' @ str_nat index @ ''-'' @ str_nat occurrence"

definition anchor :: "nat \<Rightarrow> string \<Rightarrow> string" where
  \<open>anchor index link_id =
     ''<a href="#footnote-'' @ str_nat index @ ''" id="'' @ link_id @ ''"><sup>['' @ str_nat index @ '']</sup></a>''\<close>

text \<open>
  The closure \<open>replace_tag\<close>, on the page it has captured. \<open>process_footnote\<close> may already
  have extended the list when the lookup of \<open>footnotes_references\<close> fails.
\<close>

definition replace_tag :: "block \<Rightarrow> string \<Rightarrow> page \<Rightarrow> (error + string) \<times> page" where
  "replace_tag self footnote_uuid page =
     (case process_footnote self footnote_uuid page of
        Inl KeyError \<Rightarrow> (Inr [], page)
      | Inl ValidationError \<Rightarrow> (Inr [], page)
      | Inl e \<Rightarrow> (Inl e, page)
      | Inr (index, page1) \<Rightarrow>
          (case footnotes_references page1 of
             None \<Rightarrow> (Inl AttributeError, page1)
           | Some refs \<Rightarrow>
               (let (cur, refs1) = dd_getitem refs footnote_uuid;
                    link_id = link_id_of index (length cur);
                    (cur', refs2) = dd_getitem refs1 footnote_uuid;
                    refs3 = refs2(footnote_uuid \<mapsto> cur' @ [link_id])
                in (Inr (anchor index link_id), page1\<lparr>footnotes_references := Some refs3\<rparr>))))"

text \<open>The dictionary comprehension over \<open>page.footnotes.all()\<close>: a later row wins.\<close>

definition footnotes_by_uuid :: "footnote list \<Rightarrow> (string \<rightharpoonup> footnote)" where
  "footnotes_by_uuid fs = fold (\<lambda>fn m. m(uuid fn \<mapsto> fn)) fs Map.empty"

text \<open>
  \<open>new_context.get("page")\<close> when it is an instance of \<open>Page\<close>: the address of the page
  object and its state.
\<close>

definition page_of :: "context_dict \<Rightarrow> heap \<Rightarrow> (addr \<times> page) option" where
  "page_of c h =
     (case c ''page'' of
        Some (Ref a) \<Rightarrow> (case h a of Some (PageObj page) \<Rightarrow> Some (a, page) | _ \<Rightarrow> None)
      | _ \<Rightarrow> None)"

text \<open>
  The two \<open>hasattr\<close> tests at the head of the rewriter: an attribute that is not set is
  created empty.
\<close>

definition ensure_attributes :: "page \<Rightarrow> page" where
  "ensure_attributes page =
     (let page1 = (if footnotes_list page = None then page\<lparr>footnotes_list := Some []\<rparr> else page)
      in (if footnotes_references page1 = None
          then page1\<lparr>footnotes_references := Some Map.empty\<rparr> else page1))"

text \<open>
  \<open>replace_footnote_tags\<close>: the result, the block and the heap after the call.
\<close>

definition replace_footnote_tags :: "block \<Rightarrow> pyval \<Rightarrow> markup \<Rightarrow> context_dict option \<Rightarrow> heap \<Rightarrow> (error + markup) \<times> block \<times> heap" where
  "replace_footnote_tags self v html ctx h =
     (let new_context = get_context v ctx in
      (case page_of new_context h of
         None \<Rightarrow> (Inr html, self, h)
       | Some (a, page) \<Rightarrow>
           (let page2 = ensure_attributes page;
                self1 = self\<lparr>block_footnotes := footnotes_by_uuid (footnotes page2)\<rparr>;
                (res, page3) = re_sub (replace_tag self1) (str_of html) page2
            in (case res of
                  Inl e \<Rightarrow> (Inl e, self1, h(a \<mapsto> PageObj page3))
                | Inr out \<Rightarrow> (Inr (mark_safe out), self1, h(a \<mapsto> PageObj page3))))))"

subsection \<open>The template filter\<close>

text \<open>
  \<open>get_reference_ids\<close>: the list it returns and the object after the call. An object
  that is not a page has no attribute \<open>footnotes_references\<close>.
\<close>

definition get_reference_ids :: "pyobj \<Rightarrow> string \<Rightarrow> string list \<times> pyobj" where
  "get_reference_ids v footnote_uuid =
     (case v of
        PageObj page \<Rightarrow>
          (case footnotes_references page of
             Some d \<Rightarrow> (let (r, d') = dd_get d footnote_uuid [] in
                        (r, PageObj (page\<lparr>footnotes_references := Some d'\<rparr>)))
           | None \<Rightarrow> ([], v))
      | OtherObj \<Rightarrow> ([], v))"

subsection \<open>Markers in a text\<close>

text \<open>Some position of the text starts a match of the pattern.\<close>

fun has_marker :: "string \<Rightarrow> bool" where
  "has_marker [] = False"
| "has_marker (c # cs) = (case match_at (c # cs) of Some m \<Rightarrow> True | None \<Rightarrow> has_marker cs)"


text \<open>
  The marker \<open><footnote id="ident">label</footnote>\<close> as the editor writes it, and the
  condition under which the pattern reads it back as it was written: no line feed in it,
  no \<open>">\<close> inside the identifier and no closing tag inside the label.
\<close>

definition marker_text :: "string \<Rightarrow> string \<Rightarrow> string" where
  "marker_text ident label = OPEN_TAG @ ident @ ID_END @ label @ CLOSE_TAG"

definition plain_marker :: "string \<Rightarrow> string \<Rightarrow> bool" where
  "plain_marker ident label \<longleftrightarrow>
     newline \<notin> set ident \<and> \<not> sublist ID_END ident \<and>
     newline \<notin> set label \<and> \<not> sublist CLOSE_TAG label"


text \<open>The two attributes of a page as the templates read them, absent meaning empty.\<close>

definition list_entries :: "page \<Rightarrow> footnote list" where
  "list_entries page = (case footnotes_list page of None \<Rightarrow> [] | Some l \<Rightarrow> l)"

definition reference_entries :: "page \<Rightarrow> (string \<rightharpoonup> string list)" where
  "reference_entries page = (case footnotes_references page of None \<Rightarrow> Map.empty | Some d \<Rightarrow> d)"

text \<open>
  The footnotes that the markers of a text resolve to, in the order of the markers, and a
  list without its repetitions, each element where it comes first.
\<close>

fun first_seen :: "'a list \<Rightarrow> 'a list" where
  "first_seen [] = []"
| "first_seen (x # xs) = x # first_seen (filter (\<lambda>y. y \<noteq> x) xs)"

fun referenced :: "block \<Rightarrow> piece list \<Rightarrow> footnote list" where
  "referenced self [] = []"
| "referenced self (Text c # ps) = referenced self ps"
| "referenced self (Marker u # ps) =
     (case block_footnotes self u of
        None \<Rightarrow> referenced self ps
      | Some fn \<Rightarrow> fn # referenced self ps)"

text \<open>
  A text that begins with markers: a list of segments, each a stretch of text and the
  marker \<open><footnote id="ident">label</footnote>\<close> that follows it. A segment is plain when
  no marker opens in its text and its marker is plain; \<open>markers_of\<close> counts the markers of
  the segments that carry a given identifier.
\<close>

type_synonym segment = "string \<times> string \<times> string"

fun segment_text :: "segment \<Rightarrow> string" where
  "segment_text (pre, ident, label) = pre @ marker_text ident label"

definition segments_text :: "segment list \<Rightarrow> string" where
  "segments_text segs = concat (map segment_text segs)"

fun plain_segment :: "segment \<Rightarrow> bool" where
  "plain_segment (pre, ident, label) = (\<not> sublist OPEN_TAG pre \<and> plain_marker ident label)"

fun segment_pieces :: "segment \<Rightarrow> piece list" where
  "segment_pieces (pre, ident, label) = map Text pre @ [Marker ident]"

definition markers_of :: "string \<Rightarrow> segment list \<Rightarrow> nat" where
  "markers_of u segs = count_list (map (\<lambda>(pre, ident, label). ident) segs) u"

section \<open>Scanning\<close>

lemma no_straddle:
  assumes lit: "lit = c # t" "c \<notin> set t"
    and nsub: "\<not> sublist lit xs"
    and ne: "xs \<noteq> []"
  shows "\<not> prefix lit (xs @ lit @ rest)"
proof
  assume "prefix lit (xs @ lit @ rest)"
  then have "prefix lit xs \<or> (\<exists>us. lit = xs @ us \<and> prefix us (lit @ rest))"
    by (simp only: prefix_append)
  then consider "prefix lit xs" | us where "lit = xs @ us" "prefix us (lit @ rest)"
    by blast
  then show False
  proof cases
    case 1
    then have "sublist lit xs" by (rule prefix_imp_sublist)
    with nsub show ?thesis by simp
  next
    case 2
    from ne obtain x xs' where xs: "xs = x # xs'" by (cases xs) simp_all
    from 2(1) xs lit(1) have t: "t = xs' @ us" by simp
    show ?thesis
    proof (cases us)
      case Nil
      with 2(1) have "lit = xs" by simp
      then have "sublist lit xs" by simp
      with nsub show ?thesis by simp
    next
      case (Cons u us')
      from 2(2) have "prefix (u # us') (c # t @ rest)" unfolding Cons lit(1) by simp
      then have "u = c" by simp
      with Cons t have "c \<in> set t" by simp
      with lit(2) show ?thesis by simp
    qed
  qed
qed


lemma scan_no_marker: "\<not> has_marker s \<Longrightarrow> scan s = map Text s"
  by (induction s) (auto split: option.splits)

lemma not_sublist_suffix: "\<not> sublist lit xs \<Longrightarrow> suffix zs xs \<Longrightarrow> \<not> sublist lit zs"
proof
  assume a: "\<not> sublist lit xs" "suffix zs xs" "sublist lit zs"
  from a(2) have "sublist zs xs" by (rule suffix_imp_sublist)
  with a(3) have "sublist lit xs" by (rule sublist_order.order.trans)
  with a(1) show False by simp
qed

lemma lazy_until_found:
  assumes "lit \<noteq> []" "newline \<notin> set body"
    and "\<And>zs. suffix zs body \<Longrightarrow> zs \<noteq> [] \<Longrightarrow> \<not> prefix lit (zs @ lit @ rest)"
  shows "lazy_until lit (body @ lit @ rest) = Some rest"
  using assms
proof (induction body)
  case Nil
  from Nil(1) obtain c t where "lit = c # t" by (cases lit) simp_all
  then show ?case by simp
next
  case (Cons b body)
  have "\<not> prefix lit ((b # body) @ lit @ rest)"
    by (rule Cons.prems(3)) simp_all
  moreover have "lazy_until lit (body @ lit @ rest) = Some rest"
  proof (rule Cons.IH)
    show "lit \<noteq> []" by (rule Cons.prems(1))
    show "newline \<notin> set body" using Cons.prems(2) by simp
    fix zs assume "suffix zs body" "zs \<noteq> []"
    then show "\<not> prefix lit (zs @ lit @ rest)"
      by (intro Cons.prems(3)) (simp_all add: suffix_Cons)
  qed
  moreover have "b \<noteq> newline" using Cons.prems(2) by auto
  ultimately show ?case by simp
qed

lemma match_group_found:
  assumes "newline \<notin> set ident"
    and "\<And>zs. suffix zs ident \<Longrightarrow> zs \<noteq> [] \<Longrightarrow> \<not> prefix ID_END (zs @ ID_END @ tail)"
    and "lazy_until CLOSE_TAG tail = Some rest"
  shows "match_group (ident @ ID_END @ tail) = Some (ident, rest)"
  using assms
proof (induction ident)
  case Nil
  then show ?case by (simp add: ID_END_def)
next
  case (Cons b ident)
  have "\<not> prefix ID_END ((b # ident) @ ID_END @ tail)"
    by (rule Cons.prems(2)) simp_all
  moreover have "match_group (ident @ ID_END @ tail) = Some (ident, rest)"
  proof (rule Cons.IH)
    show "newline \<notin> set ident" using Cons.prems(1) by simp
    show "lazy_until CLOSE_TAG tail = Some rest" by (rule Cons.prems(3))
    fix zs assume "suffix zs ident" "zs \<noteq> []"
    then show "\<not> prefix ID_END (zs @ ID_END @ tail)"
      by (intro Cons.prems(2)) (simp_all add: suffix_Cons)
  qed
  moreover have "b \<noteq> newline" using Cons.prems(1) by auto
  ultimately show ?case by simp
qed

lemma OPEN_TAG_head: \<open>OPEN_TAG = CHR ''<'' # ''footnote id="'' \<and> CHR ''<'' \<notin> set ''footnote id="''\<close>
  by (simp add: OPEN_TAG_def)

lemma ID_END_head: "ID_END = CHR 0x22 # ''>'' \<and> CHR 0x22 \<notin> set ''>''"
  by (simp add: ID_END_def)

lemma CLOSE_TAG_head: "CLOSE_TAG = CHR ''<'' # ''/footnote>'' \<and> CHR ''<'' \<notin> set ''/footnote>''"
  by (simp add: CLOSE_TAG_def)

lemma match_at_marker:
  assumes "plain_marker ident label"
  shows "match_at (marker_text ident label @ post) = Some (ident, post)"
proof -
  from assms have nl: "newline \<notin> set ident" "newline \<notin> set label"
    and ns: "\<not> sublist ID_END ident" "\<not> sublist CLOSE_TAG label"
    by (simp_all add: plain_marker_def)
  have 1: "lazy_until CLOSE_TAG (label @ CLOSE_TAG @ post) = Some post"
  proof (rule lazy_until_found)
    show "CLOSE_TAG \<noteq> []" by (simp add: CLOSE_TAG_def)
    show "newline \<notin> set label" by (rule nl)
    fix zs assume zs: "suffix zs label" "zs \<noteq> []"
    from ns(2) zs(1) have "\<not> sublist CLOSE_TAG zs" by (rule not_sublist_suffix)
    with CLOSE_TAG_head zs(2) show "\<not> prefix CLOSE_TAG (zs @ CLOSE_TAG @ post)"
      by (intro no_straddle) blast+
  qed
  have 2: "match_group (ident @ ID_END @ (label @ CLOSE_TAG @ post)) = Some (ident, post)"
  proof (rule match_group_found [OF _ _ 1])
    show "newline \<notin> set ident" by (rule nl)
    fix zs assume zs: "suffix zs ident" "zs \<noteq> []"
    from ns(1) zs(1) have "\<not> sublist ID_END zs" by (rule not_sublist_suffix)
    with ID_END_head zs(2) show "\<not> prefix ID_END (zs @ ID_END @ label @ CLOSE_TAG @ post)"
      by (intro no_straddle) blast+
  qed
  have "prefix OPEN_TAG (marker_text ident label @ post)"
    by (simp add: marker_text_def)
  moreover have "drop (length OPEN_TAG) (marker_text ident label @ post)
      = ident @ ID_END @ (label @ CLOSE_TAG @ post)"
    by (simp add: marker_text_def)
  ultimately show ?thesis using 2 by (simp only: match_at_def if_True)
qed

lemma scan_text_before:
  assumes "\<And>zs. suffix zs pre \<Longrightarrow> zs \<noteq> [] \<Longrightarrow> match_at (zs @ m) = None"
  shows "scan (pre @ m) = map Text pre @ scan m"
  using assms
proof (induction pre)
  case Nil
  then show ?case by simp
next
  case (Cons c pre)
  have "match_at ((c # pre) @ m) = None" by (rule Cons.prems) simp_all
  moreover have "scan (pre @ m) = map Text pre @ scan m"
  proof (rule Cons.IH)
    fix zs assume "suffix zs pre" "zs \<noteq> []"
    then show "match_at (zs @ m) = None"
      by (intro Cons.prems) (simp_all add: suffix_Cons)
  qed
  ultimately show ?case by simp
qed

lemma scan_marker:
  assumes pre: "\<not> sublist OPEN_TAG pre" and pm: "plain_marker ident label"
  shows "scan (pre @ marker_text ident label @ post) = map Text pre @ Marker ident # scan post"
proof -
  have "scan (pre @ (marker_text ident label @ post))
      = map Text pre @ scan (marker_text ident label @ post)"
  proof (rule scan_text_before)
    fix zs assume zs: "suffix zs pre" "zs \<noteq> []"
    from pre zs(1) have "\<not> sublist OPEN_TAG zs" by (rule not_sublist_suffix)
    with OPEN_TAG_head zs(2)
    have "\<not> prefix OPEN_TAG (zs @ OPEN_TAG @ (ident @ ID_END @ label @ CLOSE_TAG @ post))"
      by (intro no_straddle) blast+
    then show "match_at (zs @ marker_text ident label @ post) = None"
      by (simp add: match_at_def marker_text_def)
  qed
  moreover have "scan (marker_text ident label @ post) = Marker ident # scan post"
  proof -
    obtain c cs where "marker_text ident label @ post = c # cs"
      by (cases "marker_text ident label @ post") (simp_all add: marker_text_def OPEN_TAG_def)
    then show ?thesis using match_at_marker [OF pm, of post] by simp
  qed
  ultimately show ?thesis by simp
qed

section \<open>Numbering and one replacement\<close>

lemma list_index_append: "list_index l x = Inr i \<Longrightarrow> list_index (l @ ys) x = Inr i"
proof (induction l arbitrary: i)
  case Nil
  then show ?case by simp
next
  case (Cons y l)
  show ?case
  proof (cases "y = x")
    case True
    with Cons.prems show ?thesis by simp
  next
    case False
    with Cons.prems obtain j where j: "list_index l x = Inr j" "i = Suc j"
      by (cases "list_index l x") simp_all
    from Cons.IH [OF j(1)] False j(2) show ?thesis by simp
  qed
qed

lemma list_index_bound: "list_index l x = Inr i \<Longrightarrow> i < length l \<and> l ! i = x \<and> x \<notin> set (take i l)"
proof (induction l arbitrary: i)
  case Nil
  then show ?case by simp
next
  case (Cons y l)
  show ?case
  proof (cases "y = x")
    case True
    with Cons.prems show ?thesis by simp
  next
    case False
    with Cons.prems obtain j where j: "list_index l x = Inr j" "i = Suc j"
      by (cases "list_index l x") simp_all
    from Cons.IH [OF j(1)] False j(2) show ?thesis by simp
  qed
qed


lemma list_index_mem: "x \<in> set l \<Longrightarrow> \<exists>i. list_index l x = Inr i"
  by (induction l) auto

lemma list_index_new: "x \<notin> set l \<Longrightarrow> list_index (l @ [x]) x = Inr (length l)"
  by (induction l) auto


lemma process_footnote_known:
  assumes "block_footnotes self u = Some fn" "footnotes_list page = Some l"
  shows "\<exists>i. list_index (if fn \<notin> set l then l @ [fn] else l) fn = Inr i \<and>
     process_footnote self u page
       = Inr (i + 1, page\<lparr>footnotes_list := Some (if fn \<notin> set l then l @ [fn] else l)\<rparr>)"
proof -
  define l' where "l' = (if fn \<notin> set l then l @ [fn] else l)"
  have "fn \<in> set l'" by (simp add: l'_def)
  then have "\<exists>i. list_index l' fn = Inr i" by (rule list_index_mem)
  then obtain i where i: "list_index l' fn = Inr i" ..
  have "process_footnote self u page = Inr (i + 1, page\<lparr>footnotes_list := Some l'\<rparr>)"
    unfolding process_footnote_def Let_def
    by (simp only: assms i [unfolded l'_def] option.case sum.case l'_def)
  with i have "list_index l' fn = Inr i \<and>
     process_footnote self u page = Inr (i + 1, page\<lparr>footnotes_list := Some l'\<rparr>)" by (rule conjI)
  then show ?thesis unfolding l'_def by (rule exI)
qed

lemma process_footnote_unknown:
  "block_footnotes self u = None \<Longrightarrow> process_footnote self u page = Inl KeyError"
  unfolding process_footnote_def by (simp only: option.case)

lemma replace_tag_unknown:
  "block_footnotes self u = None \<Longrightarrow> replace_tag self u page = (Inr [], page)"
  unfolding replace_tag_def by (simp only: process_footnote_unknown sum.case error.case)


lemma replace_tag_known:
  assumes "block_footnotes self u = Some fn" "footnotes_list page = Some l"
    and "footnotes_references page = Some refs"
  shows "\<exists>i. list_index (if fn \<notin> set l then l @ [fn] else l) fn = Inr i \<and>
     replace_tag self u page =
       (Inr (anchor (i + 1) (link_id_of (i + 1) (length (case refs u of None \<Rightarrow> [] | Some ids \<Rightarrow> ids)))),
        page\<lparr>footnotes_list := Some (if fn \<notin> set l then l @ [fn] else l),
             footnotes_references := Some (refs(u \<mapsto> (case refs u of None \<Rightarrow> [] | Some ids \<Rightarrow> ids)
                @ [link_id_of (i + 1) (length (case refs u of None \<Rightarrow> [] | Some ids \<Rightarrow> ids))]))\<rparr>)"
proof -
  from process_footnote_known [OF assms(1,2)] obtain i where
    i: "list_index (if fn \<notin> set l then l @ [fn] else l) fn = Inr i"
    and p: "process_footnote self u page
       = Inr (i + 1, page\<lparr>footnotes_list := Some (if fn \<notin> set l then l @ [fn] else l)\<rparr>)"
    by (elim exE conjE)
  have r: "footnotes_references (page\<lparr>footnotes_list := Some (if fn \<notin> set l then l @ [fn] else l)\<rparr>) = Some refs"
    using assms(3) by simp
  have "replace_tag self u page =
       (Inr (anchor (i + 1) (link_id_of (i + 1) (length (case refs u of None \<Rightarrow> [] | Some ids \<Rightarrow> ids)))),
        page\<lparr>footnotes_list := Some (if fn \<notin> set l then l @ [fn] else l),
             footnotes_references := Some (refs(u \<mapsto> (case refs u of None \<Rightarrow> [] | Some ids \<Rightarrow> ids)
                @ [link_id_of (i + 1) (length (case refs u of None \<Rightarrow> [] | Some ids \<Rightarrow> ids))]))\<rparr>)"
  proof (cases "refs u")
    case None
    show ?thesis
      unfolding replace_tag_def p sum.case prod.case r option.case dd_getitem_def None Let_def
      by simp
  next
    case (Some ids)
    show ?thesis
      unfolding replace_tag_def p sum.case prod.case r option.case dd_getitem_def Some Let_def
      by simp
  qed
  with i show ?thesis by (intro exI conjI)
qed


lemma sub_pieces_text:
  "sub_pieces repl (map Text s @ ps) st =
     (case sub_pieces repl ps st of
        (Inl e, st') \<Rightarrow> (Inl e, st')
      | (Inr out, st') \<Rightarrow> (Inr (s @ out), st'))"
proof (induction s)
  case Nil
  show ?case by (cases "sub_pieces repl ps st" rule: prod.exhaust; cases "fst (sub_pieces repl ps st)") simp_all
next
  case (Cons c s)
  show ?case
    by (cases "sub_pieces repl ps st" rule: prod.exhaust; cases "fst (sub_pieces repl ps st)")
       (simp_all add: Cons.IH)
qed

lemma sub_pieces_append:
  "sub_pieces repl (ps @ qs) st =
     (case sub_pieces repl ps st of
        (Inl e, st') \<Rightarrow> (Inl e, st')
      | (Inr out, st') \<Rightarrow>
          (case sub_pieces repl qs st' of
             (Inl e, st'') \<Rightarrow> (Inl e, st'')
           | (Inr out', st'') \<Rightarrow> (Inr (out @ out'), st'')))"
proof (induction ps arbitrary: st)
  case Nil
  show ?case by (simp split: prod.splits sum.splits)
next
  case (Cons p ps)
  show ?case
  proof (cases p)
    case (Text c)
    then show ?thesis by (simp add: Cons.IH split: prod.splits sum.splits)
  next
    case (Marker g)
    then show ?thesis by (simp add: Cons.IH split: prod.splits sum.splits)
  qed
qed

lemma replace_tag_ready:
  assumes l: "footnotes_list page = Some l" and r: "footnotes_references page = Some refs"
  shows "\<exists>out page' l' refs'. replace_tag self u page = (Inr out, page')
     \<and> footnotes_list page' = Some l' \<and> footnotes_references page' = Some refs'
     \<and> footnotes page' = footnotes page \<and> prefix l l'"
proof (cases "block_footnotes self u")
  case None
  have "replace_tag self u page = (Inr [], page)" using None by (rule replace_tag_unknown)
  with l r show ?thesis by (intro exI conjI) (assumption, assumption, assumption, rule refl, simp)
next
  case (Some fn)
  define l' where "l' = (if fn \<notin> set l then l @ [fn] else l)"
  from replace_tag_known [OF Some l r] obtain i where
    rt: "replace_tag self u page =
       (Inr (anchor (i + 1) (link_id_of (i + 1) (length (case refs u of None \<Rightarrow> [] | Some ids \<Rightarrow> ids)))),
        page\<lparr>footnotes_list := Some l',
             footnotes_references := Some (refs(u \<mapsto> (case refs u of None \<Rightarrow> [] | Some ids \<Rightarrow> ids)
                @ [link_id_of (i + 1) (length (case refs u of None \<Rightarrow> [] | Some ids \<Rightarrow> ids))]))\<rparr>)"
    unfolding l'_def by (elim exE conjE)
  define page' where "page' = page\<lparr>footnotes_list := Some l',
             footnotes_references := Some (refs(u \<mapsto> (case refs u of None \<Rightarrow> [] | Some ids \<Rightarrow> ids)
                @ [link_id_of (i + 1) (length (case refs u of None \<Rightarrow> [] | Some ids \<Rightarrow> ids))]))\<rparr>"
  have 1: "replace_tag self u page =
       (Inr (anchor (i + 1) (link_id_of (i + 1) (length (case refs u of None \<Rightarrow> [] | Some ids \<Rightarrow> ids)))), page')"
    unfolding page'_def by (rule rt)
  have 2: "footnotes_list page' = Some l'" by (simp add: page'_def)
  have 3: "footnotes_references page' = Some (refs(u \<mapsto> (case refs u of None \<Rightarrow> [] | Some ids \<Rightarrow> ids)
                @ [link_id_of (i + 1) (length (case refs u of None \<Rightarrow> [] | Some ids \<Rightarrow> ids))]))"
    by (simp add: page'_def)
  have 4: "footnotes page' = footnotes page" by (simp add: page'_def)
  have 5: "prefix l l'" by (simp add: l'_def)
  from 1 2 3 4 5 show ?thesis by (intro exI conjI)
qed

lemma run_ready:
  assumes "footnotes_list page = Some l" "footnotes_references page = Some refs"
  shows "\<exists>out page' l' refs'. sub_pieces (replace_tag self) ps page = (Inr out, page')
     \<and> footnotes_list page' = Some l' \<and> footnotes_references page' = Some refs'
     \<and> footnotes page' = footnotes page \<and> prefix l l'"
  using assms
proof (induction ps arbitrary: page l refs)
  case Nil
  show ?case
    by (intro exI conjI, rule sub_pieces.simps(1), rule Nil(1), rule Nil(2), rule refl, simp)
next
  case (Cons p ps)
  show ?case
  proof (cases p)
    case (Text c)
    from Cons.IH [OF Cons.prems] obtain out page' l' refs' where
      run: "sub_pieces (replace_tag self) ps page = (Inr out, page')"
      and inv: "footnotes_list page' = Some l'" "footnotes_references page' = Some refs'"
        "footnotes page' = footnotes page" "prefix l l'"
      by (elim exE conjE)
    have "sub_pieces (replace_tag self) (p # ps) page = (Inr (c # out), page')"
      by (simp add: Text run)
    with inv show ?thesis by (intro exI conjI)
  next
    case (Marker g)
    from replace_tag_ready [OF Cons.prems, of self g] obtain r1 page1 l1 refs1 where
      step: "replace_tag self g page = (Inr r1, page1)"
      and inv1: "footnotes_list page1 = Some l1" "footnotes_references page1 = Some refs1"
        "footnotes page1 = footnotes page" "prefix l l1"
      by (elim exE conjE)
    from Cons.IH [OF inv1(1,2)] obtain out page' l' refs' where
      run: "sub_pieces (replace_tag self) ps page1 = (Inr out, page')"
      and inv: "footnotes_list page' = Some l'" "footnotes_references page' = Some refs'"
        "footnotes page' = footnotes page1" "prefix l1 l'"
      by (elim exE conjE)
    have 1: "sub_pieces (replace_tag self) (p # ps) page = (Inr (r1 @ out), page')"
      by (simp add: Marker step run)
    have 2: "footnotes page' = footnotes page" using inv(3) inv1(3) by simp
    have 3: "prefix l l'" using inv1(4) inv(4) by (rule prefix_order.trans)
    from 1 inv(1,2) 2 3 show ?thesis by (intro exI conjI)
  qed
qed

section \<open>The rewriter on a page\<close>

lemma ensure_attributes_list: "footnotes_list (ensure_attributes page) = Some (list_entries page)"
  by (cases "footnotes_list page"; cases "footnotes_references page")
     (simp_all add: ensure_attributes_def list_entries_def)

lemma ensure_attributes_references:
  "footnotes_references (ensure_attributes page) = Some (reference_entries page)"
  by (cases "footnotes_list page"; cases "footnotes_references page")
     (simp_all add: ensure_attributes_def reference_entries_def)

lemma ensure_attributes_footnotes: "footnotes (ensure_attributes page) = footnotes page"
  by (cases "footnotes_list page"; cases "footnotes_references page")
     (simp_all add: ensure_attributes_def)

lemma ensure_attributes_entries:
  "list_entries (ensure_attributes page) = list_entries page"
  "reference_entries (ensure_attributes page) = reference_entries page"
  by (simp_all add: list_entries_def reference_entries_def
        ensure_attributes_list ensure_attributes_references)

lemma page_of_get_context:
  "page_of (get_context v ctx) h = page_of (case ctx of None \<Rightarrow> Map.empty | Some c \<Rightarrow> c) h"
  by (simp add: page_of_def get_context_def)

lemma replace_footnote_tags_page:
  assumes "page_of (case ctx of None \<Rightarrow> Map.empty | Some c \<Rightarrow> c) h = Some (a, page)"
    and "sub_pieces (replace_tag (self\<lparr>block_footnotes := footnotes_by_uuid (footnotes page)\<rparr>))
           (scan (str_of html)) (ensure_attributes page) = (Inr out, page')"
  shows "replace_footnote_tags self v html ctx h =
     (Inr (SafeString out), self\<lparr>block_footnotes := footnotes_by_uuid (footnotes page)\<rparr>,
      h(a \<mapsto> PageObj page'))"
  unfolding replace_footnote_tags_def Let_def page_of_get_context assms(1) option.case prod.case
    re_sub_def ensure_attributes_footnotes assms(2) sum.case mark_safe_def
  by (rule refl)

lemma footnotes_by_uuid_fold:
  "fold (\<lambda>fn m. m(uuid fn \<mapsto> fn)) fs m u = None \<longleftrightarrow> m u = None \<and> u \<notin> uuid ` set fs"
  by (induction fs arbitrary: m) auto

lemma footnotes_by_uuid_None: "footnotes_by_uuid fs u = None \<longleftrightarrow> u \<notin> uuid ` set fs"
  by (simp add: footnotes_by_uuid_def footnotes_by_uuid_fold)


lemma replace_footnote_tags_no_page:
  assumes "page_of (case ctx of None \<Rightarrow> Map.empty | Some c \<Rightarrow> c) h = None"
  shows "replace_footnote_tags self v html ctx h = (Inr html, self, h)"
  unfolding replace_footnote_tags_def Let_def page_of_get_context assms option.case
  by (rule refl)

lemma page_of_SomeD: "page_of c h = Some (a, page) \<Longrightarrow> h a = Some (PageObj page)"
  by (auto simp: page_of_def split: option.splits pyval.splits pyobj.splits)

lemma replace_footnote_tags_run:
  assumes "page_of (case ctx of None \<Rightarrow> Map.empty | Some c \<Rightarrow> c) h = Some (a, page)"
  shows "\<exists>out page' l' refs'.
     replace_footnote_tags self v html ctx h =
       (Inr (SafeString out), self\<lparr>block_footnotes := footnotes_by_uuid (footnotes page)\<rparr>,
        h(a \<mapsto> PageObj page'))
     \<and> sub_pieces (replace_tag (self\<lparr>block_footnotes := footnotes_by_uuid (footnotes page)\<rparr>))
           (scan (str_of html)) (ensure_attributes page) = (Inr out, page')
     \<and> footnotes_list page' = Some l' \<and> footnotes_references page' = Some refs'
     \<and> footnotes page' = footnotes page \<and> prefix (list_entries page) l'"
proof -
  from run_ready [OF ensure_attributes_list ensure_attributes_references,
      of "self\<lparr>block_footnotes := footnotes_by_uuid (footnotes page)\<rparr>" "scan (str_of html)" page]
  obtain out page' l' refs' where
    run: "sub_pieces (replace_tag (self\<lparr>block_footnotes := footnotes_by_uuid (footnotes page)\<rparr>))
           (scan (str_of html)) (ensure_attributes page) = (Inr out, page')"
    and inv: "footnotes_list page' = Some l'" "footnotes_references page' = Some refs'"
      "footnotes page' = footnotes (ensure_attributes page)" "prefix (list_entries page) l'"
    by (elim exE conjE)
  have f: "footnotes page' = footnotes page" using inv(3) by (simp add: ensure_attributes_footnotes)
  from replace_footnote_tags_page [OF assms run] run inv(1,2) f inv(4)
  show ?thesis by (intro exI conjI)
qed

lemma run_marker:
  assumes "\<not> sublist OPEN_TAG pre" "plain_marker ident label"
  shows "sub_pieces repl (scan (pre @ marker_text ident label @ post)) st =
     (case repl ident st of
        (Inl e, st') \<Rightarrow> (Inl e, st')
      | (Inr r, st') \<Rightarrow>
          (case sub_pieces repl (scan post) st' of
             (Inl e, st'') \<Rightarrow> (Inl e, st'')
           | (Inr out, st'') \<Rightarrow> (Inr (pre @ r @ out), st'')))"
  unfolding scan_marker [OF assms] sub_pieces_text sub_pieces.simps
  by (simp split: prod.splits sum.splits)

lemma get_reference_ids_entries:
  "fst (get_reference_ids (PageObj page) u)
     = (case reference_entries page u of None \<Rightarrow> [] | Some ids \<Rightarrow> ids)"
  by (simp add: get_reference_ids_def dd_get_def reference_entries_def split: option.splits)

lemma anchor_text:
  \<open>anchor i (link_id_of i k) =
     ''<a href="#footnote-'' @ str_nat i @ ''" id="footnote-source-'' @ str_nat i @ ''-'' @ str_nat k
       @ ''"><sup>['' @ str_nat i @ '']</sup></a>''\<close>
  by (simp add: anchor_def link_id_of_def)

lemma str_nat_small:
  "str_nat 0 = ''0''" "str_nat 1 = ''1''" "str_nat (Suc 0) = ''1''" "str_nat 2 = ''2''"
  by (simp_all add: str_nat.simps digit_char_def)

section \<open>Runs over the markers of a page\<close>

lemma ids_ready:
  "footnotes_references page = Some refs \<Longrightarrow>
   fst (get_reference_ids (PageObj page) u) = (case refs u of None \<Rightarrow> [] | Some ids \<Rightarrow> ids)"
  by (simp add: get_reference_ids_def dd_get_def split: option.splits)

text \<open>One replacement, seen from the identifier \<open>u\<close> of a known footnote.\<close>

lemma replace_tag_ids:
  assumes l: "footnotes_list page = Some l" and r: "footnotes_references page = Some refs"
  shows "\<exists>out page1 l1 refs1. replace_tag self g page = (Inr out, page1)
     \<and> footnotes_list page1 = Some l1 \<and> footnotes_references page1 = Some refs1
     \<and> prefix l l1
     \<and> (g \<noteq> u \<longrightarrow> fst (get_reference_ids (PageObj page1) u) = fst (get_reference_ids (PageObj page) u))
     \<and> (block_footnotes self g = None \<longrightarrow> page1 = page \<and> out = [])
     \<and> (\<forall>fn. block_footnotes self g = Some fn \<longrightarrow>
          (\<exists>i. list_index l1 fn = Inr i
             \<and> out = anchor (i + 1) (link_id_of (i + 1) (length (fst (get_reference_ids (PageObj page) g))))
             \<and> fst (get_reference_ids (PageObj page1) g)
                 = fst (get_reference_ids (PageObj page) g)
                   @ [link_id_of (i + 1) (length (fst (get_reference_ids (PageObj page) g)))]))"
proof (cases "block_footnotes self g")
  case None
  have 1: "replace_tag self g page = (Inr [], page)" using None by (rule replace_tag_unknown)
  have 2: "prefix l l" by simp
  have 3: "g \<noteq> u \<longrightarrow> fst (get_reference_ids (PageObj page) u) = fst (get_reference_ids (PageObj page) u)"
    by simp
  have 4: "block_footnotes self g = None \<longrightarrow> page = page \<and> ([]::string) = []" by simp
  have 5: "\<forall>fn. block_footnotes self g = Some fn \<longrightarrow>
          (\<exists>i. list_index l fn = Inr i
             \<and> [] = anchor (i + 1) (link_id_of (i + 1) (length (fst (get_reference_ids (PageObj page) g))))
             \<and> fst (get_reference_ids (PageObj page) g)
                 = fst (get_reference_ids (PageObj page) g)
                   @ [link_id_of (i + 1) (length (fst (get_reference_ids (PageObj page) g)))])"
    using None by simp
  from 1 l r 2 3 4 5 show ?thesis by (intro exI conjI)
next
  case (Some fn)
  define l1 where "l1 = (if fn \<notin> set l then l @ [fn] else l)"
  define cur where "cur = (case refs g of None \<Rightarrow> [] | Some ids \<Rightarrow> ids)"
  have cur: "fst (get_reference_ids (PageObj page) g) = cur"
    unfolding cur_def using r by (rule ids_ready)
  from replace_tag_known [OF Some l r] obtain i where
    i: "list_index l1 fn = Inr i"
    and rt: "replace_tag self g page =
       (Inr (anchor (i + 1) (link_id_of (i + 1) (length cur))),
        page\<lparr>footnotes_list := Some l1,
             footnotes_references := Some (refs(g \<mapsto> cur @ [link_id_of (i + 1) (length cur)]))\<rparr>)"
    unfolding l1_def cur_def by (elim exE conjE)
  define page1 where "page1 = page\<lparr>footnotes_list := Some l1,
             footnotes_references := Some (refs(g \<mapsto> cur @ [link_id_of (i + 1) (length cur)]))\<rparr>"
  have 1: "replace_tag self g page = (Inr (anchor (i + 1) (link_id_of (i + 1) (length cur))), page1)"
    unfolding page1_def by (rule rt)
  have 2: "footnotes_list page1 = Some l1" by (simp add: page1_def)
  have 3: "footnotes_references page1 = Some (refs(g \<mapsto> cur @ [link_id_of (i + 1) (length cur)]))"
    by (simp add: page1_def)
  have 4: "prefix l l1" by (simp add: l1_def)
  have 5: "g \<noteq> u \<longrightarrow> fst (get_reference_ids (PageObj page1) u) = fst (get_reference_ids (PageObj page) u)"
    by (simp add: ids_ready [OF 3] ids_ready [OF r])
  have 6: "block_footnotes self g = None \<longrightarrow>
      page1 = page \<and> anchor (i + 1) (link_id_of (i + 1) (length cur)) = []"
    using Some by simp
  have 7: "fst (get_reference_ids (PageObj page1) g) = cur @ [link_id_of (i + 1) (length cur)]"
    by (simp add: ids_ready [OF 3])
  have 8: "\<forall>fn. block_footnotes self g = Some fn \<longrightarrow>
          (\<exists>i'. list_index l1 fn = Inr i'
             \<and> anchor (i + 1) (link_id_of (i + 1) (length cur))
                 = anchor (i' + 1) (link_id_of (i' + 1) (length (fst (get_reference_ids (PageObj page) g))))
             \<and> fst (get_reference_ids (PageObj page1) g)
                 = fst (get_reference_ids (PageObj page) g)
                   @ [link_id_of (i' + 1) (length (fst (get_reference_ids (PageObj page) g)))])"
  proof (intro allI impI)
    fix fn' assume "block_footnotes self g = Some fn'"
    with Some have e: "fn' = fn" by simp
    from i 7 show "\<exists>i'. list_index l1 fn' = Inr i'
             \<and> anchor (i + 1) (link_id_of (i + 1) (length cur))
                 = anchor (i' + 1) (link_id_of (i' + 1) (length (fst (get_reference_ids (PageObj page) g))))
             \<and> fst (get_reference_ids (PageObj page1) g)
                 = fst (get_reference_ids (PageObj page) g)
                   @ [link_id_of (i' + 1) (length (fst (get_reference_ids (PageObj page) g)))]"
      unfolding e cur by (intro exI [of _ i] conjI) simp_all
  qed
  from 1 2 3 4 5 6 8 show ?thesis by (intro exI conjI)
qed

lemma run_Text:
  assumes "footnotes_list page = Some l" "footnotes_references page = Some refs"
    and "sub_pieces (replace_tag self) (Text c # ps) page = (Inr out, pageN)"
  shows "\<exists>out'. sub_pieces (replace_tag self) ps page = (Inr out', pageN)"
proof -
  from run_ready [OF assms(1,2), of self ps] obtain out' page' where
    run: "sub_pieces (replace_tag self) ps page = (Inr out', page')"
    by (elim exE conjE)
  with assms(3) have "page' = pageN" by simp
  with run show ?thesis by (intro exI) simp
qed

lemma run_Marker:
  assumes "footnotes_list page1 = Some l1" "footnotes_references page1 = Some refs1"
    and "replace_tag self g page = (Inr r1, page1)"
    and "sub_pieces (replace_tag self) (Marker g # ps) page = (Inr out, pageN)"
  shows "\<exists>out' lN. sub_pieces (replace_tag self) ps page1 = (Inr out', pageN)
           \<and> out = r1 @ out' \<and> footnotes_list pageN = Some lN \<and> prefix l1 lN"
proof -
  from run_ready [OF assms(1,2), of self ps] obtain out' page' lN where
    run: "sub_pieces (replace_tag self) ps page1 = (Inr out', page')"
    and lN: "footnotes_list page' = Some lN" "prefix l1 lN"
    by (elim exE conjE)
  from assms(4) have "page' = pageN \<and> out = r1 @ out'" by (simp add: assms(3) run)
  with run lN show ?thesis by (intro exI conjI) simp_all
qed

lemma run_count:
  assumes "block_footnotes self u = Some fn"
    and "footnotes_list page = Some l" "footnotes_references page = Some refs"
    and "sub_pieces (replace_tag self) ps page = (Inr out, pageN)"
  shows "length (fst (get_reference_ids (PageObj pageN) u))
     = length (fst (get_reference_ids (PageObj page) u)) + count_list ps (Marker u)"
  using assms(2-)
proof (induction ps arbitrary: page l refs out)
  case Nil
  then show ?case by simp
next
  case (Cons p ps)
  show ?case
  proof (cases p)
    case (Text c)
    from run_Text [OF Cons.prems(1,2) Cons.prems(3) [unfolded Text]] obtain out' where
      "sub_pieces (replace_tag self) ps page = (Inr out', pageN)" ..
    from Cons.IH [OF Cons.prems(1,2) this] show ?thesis by (simp add: Text)
  next
    case (Marker g)
    from replace_tag_ids [OF Cons.prems(1,2), of self g u] obtain r1 page1 l1 refs1 where
      step: "replace_tag self g page = (Inr r1, page1)"
      and rdy: "footnotes_list page1 = Some l1" "footnotes_references page1 = Some refs1"
      and other: "g \<noteq> u \<longrightarrow> fst (get_reference_ids (PageObj page1) u) = fst (get_reference_ids (PageObj page) u)"
      and known: "\<forall>fn. block_footnotes self g = Some fn \<longrightarrow>
          (\<exists>i. list_index l1 fn = Inr i
             \<and> r1 = anchor (i + 1) (link_id_of (i + 1) (length (fst (get_reference_ids (PageObj page) g))))
             \<and> fst (get_reference_ids (PageObj page1) g)
                 = fst (get_reference_ids (PageObj page) g)
                   @ [link_id_of (i + 1) (length (fst (get_reference_ids (PageObj page) g)))])"
      by (elim exE conjE)
    from run_Marker [OF rdy step Cons.prems(3) [unfolded Marker]] obtain out' where
      run: "sub_pieces (replace_tag self) ps page1 = (Inr out', pageN)"
      by (elim exE conjE)
    note ih = Cons.IH [OF rdy run]
    show ?thesis
    proof (cases "g = u")
      case True
      from known assms(1) True obtain i where
        "fst (get_reference_ids (PageObj page1) u)
                 = fst (get_reference_ids (PageObj page) u)
                   @ [link_id_of (i + 1) (length (fst (get_reference_ids (PageObj page) u)))]"
        by (elim allE [of _ fn]) (simp, elim exE conjE, simp)
      then have "length (fst (get_reference_ids (PageObj page1) u))
          = Suc (length (fst (get_reference_ids (PageObj page) u)))" by simp
      with ih show ?thesis by (simp add: Marker True)
    next
      case False
      with other have "fst (get_reference_ids (PageObj page1) u) = fst (get_reference_ids (PageObj page) u)"
        by simp
      with ih False show ?thesis by (simp add: Marker)
    qed
  qed
qed

lemma list_index_prefix:
  assumes "list_index l x = Inr i" "prefix l l'"
  shows "list_index l' x = Inr i"
proof -
  from assms(2) obtain zs where "l' = l @ zs" by (rule prefixE)
  with list_index_append [OF assms(1), of zs] show ?thesis by simp
qed

lemma run_refs:
  assumes "block_footnotes self u = Some fn"
    and "footnotes_list page = Some l" "footnotes_references page = Some refs"
    and "sub_pieces (replace_tag self) ps page = (Inr out, pageN)"
    and "footnotes_list pageN = Some lN" "list_index lN fn = Inr j"
  shows "fst (get_reference_ids (PageObj pageN) u)
     = fst (get_reference_ids (PageObj page) u)
       @ map (link_id_of (j + 1))
           [length (fst (get_reference_ids (PageObj page) u)) ..<
            length (fst (get_reference_ids (PageObj page) u)) + count_list ps (Marker u)]"
  using assms(2-4)
proof (induction ps arbitrary: page l refs out)
  case Nil
  then show ?case by simp
next
  case (Cons p ps)
  show ?case
  proof (cases p)
    case (Text c)
    from run_Text [OF Cons.prems(1,2) Cons.prems(3) [unfolded Text]] obtain out' where
      "sub_pieces (replace_tag self) ps page = (Inr out', pageN)" ..
    from Cons.IH [OF Cons.prems(1,2) this] show ?thesis by (simp add: Text)
  next
    case (Marker g)
    from replace_tag_ids [OF Cons.prems(1,2), of self g u] obtain r1 page1 l1 refs1 where
      step: "replace_tag self g page = (Inr r1, page1)"
      and rdy: "footnotes_list page1 = Some l1" "footnotes_references page1 = Some refs1"
      and other: "g \<noteq> u \<longrightarrow> fst (get_reference_ids (PageObj page1) u) = fst (get_reference_ids (PageObj page) u)"
      and known: "\<forall>fn. block_footnotes self g = Some fn \<longrightarrow>
          (\<exists>i. list_index l1 fn = Inr i
             \<and> r1 = anchor (i + 1) (link_id_of (i + 1) (length (fst (get_reference_ids (PageObj page) g))))
             \<and> fst (get_reference_ids (PageObj page1) g)
                 = fst (get_reference_ids (PageObj page) g)
                   @ [link_id_of (i + 1) (length (fst (get_reference_ids (PageObj page) g)))])"
      by (elim exE conjE)
    from run_Marker [OF rdy step Cons.prems(3) [unfolded Marker]] obtain out' lN' where
      run: "sub_pieces (replace_tag self) ps page1 = (Inr out', pageN)"
      and pre: "footnotes_list pageN = Some lN'" "prefix l1 lN'"
      by (elim exE conjE)
    from pre(1) assms(5) have lN': "lN' = lN" by simp
    note ih = Cons.IH [OF rdy run]
    show ?thesis
    proof (cases "g = u")
      case True
      from known assms(1) True obtain i where
        i: "list_index l1 fn = Inr i"
        and ids: "fst (get_reference_ids (PageObj page1) u)
                 = fst (get_reference_ids (PageObj page) u)
                   @ [link_id_of (i + 1) (length (fst (get_reference_ids (PageObj page) u)))]"
        by (elim allE [of _ fn]) (simp, elim exE conjE, simp)
      from i pre(2) have "list_index lN fn = Inr i" unfolding lN' by (rule list_index_prefix)
      with assms(6) have ij: "i = j" by simp
      define ids0 where "ids0 = fst (get_reference_ids (PageObj page) u)"
      define n where "n = count_list ps (Marker u)"
      have ids': "fst (get_reference_ids (PageObj page1) u) = ids0 @ [link_id_of (j + 1) (length ids0)]"
        using ids unfolding ij ids0_def by simp
      have "fst (get_reference_ids (PageObj pageN) u)
          = (ids0 @ [link_id_of (j + 1) (length ids0)])
            @ map (link_id_of (j + 1)) [Suc (length ids0) ..< Suc (length ids0) + n]"
        using ih unfolding ids' n_def by simp
      also have "\<dots> = ids0 @ map (link_id_of (j + 1)) [length ids0 ..< length ids0 + Suc n]"
      proof -
        have "[length ids0 ..< length ids0 + Suc n]
            = length ids0 # [Suc (length ids0) ..< Suc (length ids0) + n]"
          by (simp del: upt_Suc add: upt_conv_Cons)
        then show ?thesis by (simp del: upt_Suc)
      qed
      finally have "fst (get_reference_ids (PageObj pageN) u)
          = ids0 @ map (link_id_of (j + 1)) [length ids0 ..< length ids0 + Suc n]" .
      then show ?thesis unfolding ids0_def n_def by (simp add: Marker True)
    next
      case False
      with other have "fst (get_reference_ids (PageObj page1) u) = fst (get_reference_ids (PageObj page) u)"
        by simp
      with ih False show ?thesis by (simp add: Marker)
    qed
  qed
qed

lemma set_first_seen: "set (first_seen xs) = set xs"
  by (induction xs rule: first_seen.induct) auto

lemma distinct_first_seen: "distinct (first_seen xs)"
  by (induction xs rule: first_seen.induct) (auto simp: set_first_seen)

lemma first_seen_distinct: "distinct xs \<Longrightarrow> first_seen xs = xs"
proof (induction xs)
  case Nil
  show ?case by simp
next
  case (Cons x xs)
  then have "filter (\<lambda>y. y \<noteq> x) xs = xs" by (auto simp: filter_id_conv)
  with Cons show ?case by simp
qed

lemma extend_first_seen:
  "(if fn \<notin> set l then l @ [fn] else l)
     @ first_seen (filter (\<lambda>f. f \<notin> set (if fn \<notin> set l then l @ [fn] else l)) rs)
   = l @ first_seen (filter (\<lambda>f. f \<notin> set l) (fn # rs))"
proof (cases "fn \<in> set l")
  case True
  then show ?thesis by simp
next
  case False
  have "filter (\<lambda>y. y \<noteq> fn) (filter (\<lambda>f. f \<notin> set l) rs)
      = filter (\<lambda>f. f \<notin> set (l @ [fn])) rs"
    by (induction rs) auto
  with False show ?thesis by simp
qed

lemma run_list:
  assumes "footnotes_list page = Some l" "footnotes_references page = Some refs"
  shows "\<exists>out pageN. sub_pieces (replace_tag self) ps page = (Inr out, pageN)
     \<and> footnotes_list pageN
         = Some (l @ first_seen (filter (\<lambda>f. f \<notin> set l) (referenced self ps)))"
  using assms
proof (induction ps arbitrary: page l refs)
  case Nil
  have "sub_pieces (replace_tag self) [] page = (Inr [], page)" by simp
  moreover have "footnotes_list page
      = Some (l @ first_seen (filter (\<lambda>f. f \<notin> set l) (referenced self [])))"
    using Nil(1) by simp
  ultimately show ?case by (intro exI conjI)
next
  case (Cons p ps)
  show ?case
  proof (cases p)
    case (Text c)
    from Cons.IH [OF Cons.prems] obtain out pageN where
      run: "sub_pieces (replace_tag self) ps page = (Inr out, pageN)"
      and lst: "footnotes_list pageN
         = Some (l @ first_seen (filter (\<lambda>f. f \<notin> set l) (referenced self ps)))"
      by (elim exE conjE)
    have 1: "sub_pieces (replace_tag self) (p # ps) page = (Inr (c # out), pageN)"
      by (simp add: Text run)
    have 2: "footnotes_list pageN
         = Some (l @ first_seen (filter (\<lambda>f. f \<notin> set l) (referenced self (p # ps))))"
      using lst by (simp add: Text)
    from 1 2 show ?thesis by (intro exI conjI)
  next
    case (Marker g)
    show ?thesis
    proof (cases "block_footnotes self g")
      case None
      have step: "replace_tag self g page = (Inr [], page)" using None by (rule replace_tag_unknown)
      from Cons.IH [OF Cons.prems] obtain out pageN where
        run: "sub_pieces (replace_tag self) ps page = (Inr out, pageN)"
        and lst: "footnotes_list pageN
           = Some (l @ first_seen (filter (\<lambda>f. f \<notin> set l) (referenced self ps)))"
        by (elim exE conjE)
      have 1: "sub_pieces (replace_tag self) (p # ps) page = (Inr ([] @ out), pageN)"
        by (simp add: Marker step run)
      have 2: "footnotes_list pageN
           = Some (l @ first_seen (filter (\<lambda>f. f \<notin> set l) (referenced self (p # ps))))"
        using lst by (simp add: Marker None)
      from 1 2 show ?thesis by (intro exI conjI)
    next
      case (Some fn)
      define l1 where "l1 = (if fn \<notin> set l then l @ [fn] else l)"
      from replace_tag_known [OF Some Cons.prems] obtain i where
        rt: "replace_tag self g page =
         (Inr (anchor (i + 1) (link_id_of (i + 1) (length (case refs g of None \<Rightarrow> [] | Some ids \<Rightarrow> ids)))),
          page\<lparr>footnotes_list := Some l1,
             footnotes_references := Some (refs(g \<mapsto> (case refs g of None \<Rightarrow> [] | Some ids \<Rightarrow> ids)
                @ [link_id_of (i + 1) (length (case refs g of None \<Rightarrow> [] | Some ids \<Rightarrow> ids))]))\<rparr>)"
        unfolding l1_def by (elim exE conjE)
      define page1 where "page1 = page\<lparr>footnotes_list := Some l1,
             footnotes_references := Some (refs(g \<mapsto> (case refs g of None \<Rightarrow> [] | Some ids \<Rightarrow> ids)
                @ [link_id_of (i + 1) (length (case refs g of None \<Rightarrow> [] | Some ids \<Rightarrow> ids))]))\<rparr>"
      define r1 where "r1 = anchor (i + 1) (link_id_of (i + 1) (length (case refs g of None \<Rightarrow> [] | Some ids \<Rightarrow> ids)))"
      have step: "replace_tag self g page = (Inr r1, page1)"
        unfolding r1_def page1_def by (rule rt)
      have rl: "footnotes_list page1 = Some l1" by (simp add: page1_def)
      have rr: "footnotes_references page1 = Some (refs(g \<mapsto> (case refs g of None \<Rightarrow> [] | Some ids \<Rightarrow> ids)
                @ [link_id_of (i + 1) (length (case refs g of None \<Rightarrow> [] | Some ids \<Rightarrow> ids))]))"
        by (simp add: page1_def)
      from Cons.IH [OF rl rr] obtain out pageN where
        run: "sub_pieces (replace_tag self) ps page1 = (Inr out, pageN)"
        and lst: "footnotes_list pageN
           = Some (l1 @ first_seen (filter (\<lambda>f. f \<notin> set l1) (referenced self ps)))"
        by (elim exE conjE)
      have 1: "sub_pieces (replace_tag self) (p # ps) page = (Inr (r1 @ out), pageN)"
        by (simp add: Marker step run)
      have 2: "footnotes_list pageN
           = Some (l @ first_seen (filter (\<lambda>f. f \<notin> set l) (referenced self (p # ps))))"
        unfolding lst l1_def extend_first_seen by (simp add: Marker Some)
      from 1 2 show ?thesis by (intro exI conjI)
    qed
  qed
qed

lemma distinct_extended:
  "distinct l \<Longrightarrow> distinct (l @ first_seen (filter (\<lambda>f. f \<notin> set l) rs))"
  by (auto simp: distinct_first_seen set_first_seen)

lemma replace_tag_block_cong:
  "block_footnotes s = block_footnotes s' \<Longrightarrow> replace_tag s = replace_tag s'"
  by (intro ext) (simp add: replace_tag_def process_footnote_def)

lemma ensure_attributes_ready:
  "footnotes_list p = Some l \<Longrightarrow> footnotes_references p = Some r \<Longrightarrow> ensure_attributes p = p"
  by (simp add: ensure_attributes_def)

lemma page_of_update:
  "page_of c h = Some (a, page) \<Longrightarrow> page_of c (h(a \<mapsto> PageObj page')) = Some (a, page')"
  by (auto simp: page_of_def split: option.splits pyval.splits pyobj.splits)

text \<open>
  Two blocks of one page, rendered one after the other with the same context: the second
  call finds the page as the first left it, and the two calls together are one run over
  the markers of both texts.
\<close>

lemma two_blocks:
  assumes po: "page_of (case ctx of None \<Rightarrow> Map.empty | Some c \<Rightarrow> c) h = Some (a, page)"
  shows "\<exists>out1 out2 page1 page2.
       replace_footnote_tags self v html1 ctx h
         = (Inr (SafeString out1), self\<lparr>block_footnotes := footnotes_by_uuid (footnotes page)\<rparr>,
            h(a \<mapsto> PageObj page1))
     \<and> replace_footnote_tags self' v' html2 ctx (h(a \<mapsto> PageObj page1))
         = (Inr (SafeString out2), self'\<lparr>block_footnotes := footnotes_by_uuid (footnotes page)\<rparr>,
            h(a \<mapsto> PageObj page2))
     \<and> sub_pieces (replace_tag (self\<lparr>block_footnotes := footnotes_by_uuid (footnotes page)\<rparr>))
           (scan (str_of html1) @ scan (str_of html2)) (ensure_attributes page)
         = (Inr (out1 @ out2), page2)"
proof -
  from replace_footnote_tags_run [OF po, of self v html1] obtain out1 page1 l1 refs1 where
    r1: "replace_footnote_tags self v html1 ctx h
         = (Inr (SafeString out1), self\<lparr>block_footnotes := footnotes_by_uuid (footnotes page)\<rparr>,
            h(a \<mapsto> PageObj page1))"
    and run1: "sub_pieces (replace_tag (self\<lparr>block_footnotes := footnotes_by_uuid (footnotes page)\<rparr>))
           (scan (str_of html1)) (ensure_attributes page) = (Inr out1, page1)"
    and rdy: "footnotes_list page1 = Some l1" "footnotes_references page1 = Some refs1"
    and fp: "footnotes page1 = footnotes page"
    by (elim exE conjE)
  have po2: "page_of (case ctx of None \<Rightarrow> Map.empty | Some c \<Rightarrow> c) (h(a \<mapsto> PageObj page1))
      = Some (a, page1)"
    using po by (rule page_of_update)
  from replace_footnote_tags_run [OF po2, of self' v' html2] obtain out2 page2 where
    r2: "replace_footnote_tags self' v' html2 ctx (h(a \<mapsto> PageObj page1))
         = (Inr (SafeString out2), self'\<lparr>block_footnotes := footnotes_by_uuid (footnotes page1)\<rparr>,
            (h(a \<mapsto> PageObj page1))(a \<mapsto> PageObj page2))"
    and run2: "sub_pieces (replace_tag (self'\<lparr>block_footnotes := footnotes_by_uuid (footnotes page1)\<rparr>))
           (scan (str_of html2)) (ensure_attributes page1) = (Inr out2, page2)"
    by (elim exE conjE)
  have same: "replace_tag (self'\<lparr>block_footnotes := footnotes_by_uuid (footnotes page1)\<rparr>)
      = replace_tag (self\<lparr>block_footnotes := footnotes_by_uuid (footnotes page)\<rparr>)"
    by (rule replace_tag_block_cong) (simp add: fp)
  have r2': "replace_footnote_tags self' v' html2 ctx (h(a \<mapsto> PageObj page1))
         = (Inr (SafeString out2), self'\<lparr>block_footnotes := footnotes_by_uuid (footnotes page)\<rparr>,
            h(a \<mapsto> PageObj page2))"
    using r2 by (simp add: fp)
  have run2': "sub_pieces (replace_tag (self\<lparr>block_footnotes := footnotes_by_uuid (footnotes page)\<rparr>))
           (scan (str_of html2)) page1 = (Inr out2, page2)"
    using run2 unfolding same ensure_attributes_ready [OF rdy] .
  have both: "sub_pieces (replace_tag (self\<lparr>block_footnotes := footnotes_by_uuid (footnotes page)\<rparr>))
           (scan (str_of html1) @ scan (str_of html2)) (ensure_attributes page)
         = (Inr (out1 @ out2), page2)"
    unfolding sub_pieces_append run1 by (simp add: run2')
  from r1 r2' both show ?thesis by (intro exI conjI)
qed

subsection \<open>A marker after plain segments\<close>

text \<open>
  The pieces of a text made of plain segments, and one marker for a known footnote after
  such segments in a run on a page that has its two attributes.
\<close>

lemma scan_segments:
  "list_all plain_segment segs \<Longrightarrow>
   scan (segments_text segs @ rest) = concat (map segment_pieces segs) @ scan rest"
proof (induction segs)
  case Nil
  show ?case by (simp add: segments_text_def)
next
  case (Cons sg segs)
  obtain pre ident label where sg: "sg = (pre, ident, label)" by (cases sg)
  from Cons.prems have p: "\<not> sublist OPEN_TAG pre" "plain_marker ident label"
    and rest: "list_all plain_segment segs"
    by (simp_all add: sg)
  have "segments_text (sg # segs) @ rest
      = pre @ marker_text ident label @ (segments_text segs @ rest)"
    by (simp add: segments_text_def sg)
  then have "scan (segments_text (sg # segs) @ rest)
      = map Text pre @ Marker ident # scan (segments_text segs @ rest)"
    by (simp only: scan_marker [OF p])
  also have "\<dots> = concat (map segment_pieces (sg # segs)) @ scan rest"
    by (simp add: Cons.IH [OF rest] sg)
  finally show ?case .
qed

lemma count_text_pieces: "count_list (map Text s) (Marker u) = 0"
  by (induction s) simp_all

lemma count_segment_pieces:
  "count_list (concat (map segment_pieces segs)) (Marker u) = markers_of u segs"
proof (induction segs)
  case Nil
  show ?case by (simp add: markers_of_def)
next
  case (Cons sg segs)
  obtain pre ident label where sg: "sg = (pre, ident, label)" by (cases sg)
  from Cons.IH show ?case
    by (simp add: sg markers_of_def count_text_pieces)
qed

lemma sub_pieces_only_text: "sub_pieces repl (map Text s) st = (Inr s, st)"
  by (induction s) simp_all

lemma block_reference:
  assumes known: "block_footnotes S u = Some fn"
    and l: "footnotes_list p = Some l" and r: "footnotes_references p = Some refs"
    and A: "list_all plain_segment A"
    and pre: "\<not> sublist OPEN_TAG pre" and pm: "plain_marker u label"
  shows "\<exists>i outA outB pageA pageN lN refsN.
       sub_pieces (replace_tag S) (scan (segments_text A)) p = (Inr outA, pageA)
     \<and> sub_pieces (replace_tag S) (scan (segments_text A @ pre @ marker_text u label @ R)) p
         = (Inr (outA @ pre
              @ anchor i (link_id_of i (length (fst (get_reference_ids (PageObj pageA) u)))) @ outB),
            pageN)
     \<and> length (fst (get_reference_ids (PageObj pageA) u))
         = length (fst (get_reference_ids (PageObj p) u)) + markers_of u A
     \<and> footnotes_list pageN = Some lN \<and> footnotes_references pageN = Some refsN
     \<and> footnotes pageN = footnotes p \<and> prefix l lN
     \<and> 0 < i \<and> list_index lN fn = Inr (i - 1)
     \<and> fst (get_reference_ids (PageObj pageN) u)
         = fst (get_reference_ids (PageObj p) u)
           @ map (link_id_of i)
               [length (fst (get_reference_ids (PageObj p) u)) ..<
                length (fst (get_reference_ids (PageObj p) u))
                  + (markers_of u A + 1 + count_list (scan R) (Marker u))]
     \<and> (A = [] \<longrightarrow> outA = []
           \<and> list_index (if fn \<notin> set l then l @ [fn] else l) fn = Inr (i - 1))
     \<and> (\<not> has_marker R \<longrightarrow> outB = R)"
proof -
  define PA where "PA = concat (map segment_pieces A)"
  have scA: "scan (segments_text A) = PA"
    using scan_segments [OF A, of "[]"] by (simp add: PA_def)
  have scT: "scan (segments_text A @ pre @ marker_text u label @ R)
      = PA @ map Text pre @ Marker u # scan R"
    using scan_segments [OF A, of "pre @ marker_text u label @ R"]
    by (simp add: PA_def scan_marker [OF pre pm])
  from run_ready [OF l r, of S PA] obtain outA pageA lA refsA where
    runA: "sub_pieces (replace_tag S) PA p = (Inr outA, pageA)"
    and rdyA: "footnotes_list pageA = Some lA" "footnotes_references pageA = Some refsA"
    and fA: "footnotes pageA = footnotes p" and preA: "prefix l lA"
    by (elim exE conjE)
  define cur where "cur = (case refsA u of None \<Rightarrow> [] | Some ids \<Rightarrow> ids)"
  define l2 where "l2 = (if fn \<notin> set lA then lA @ [fn] else lA)"
  have cur: "fst (get_reference_ids (PageObj pageA) u) = cur"
    unfolding cur_def using rdyA(2) by (rule ids_ready)
  from replace_tag_known [OF known rdyA] obtain i0 where
    i0: "list_index l2 fn = Inr i0"
    and rt: "replace_tag S u pageA =
       (Inr (anchor (i0 + 1) (link_id_of (i0 + 1) (length cur))),
        pageA\<lparr>footnotes_list := Some l2,
             footnotes_references := Some (refsA(u \<mapsto> cur @ [link_id_of (i0 + 1) (length cur)]))\<rparr>)"
    unfolding l2_def cur_def by (elim exE conjE)
  define page2 where "page2 = pageA\<lparr>footnotes_list := Some l2,
             footnotes_references := Some (refsA(u \<mapsto> cur @ [link_id_of (i0 + 1) (length cur)]))\<rparr>"
  have step: "replace_tag S u pageA = (Inr (anchor (i0 + 1) (link_id_of (i0 + 1) (length cur))), page2)"
    unfolding page2_def by (rule rt)
  have rdy2: "footnotes_list page2 = Some l2"
    "footnotes_references page2 = Some (refsA(u \<mapsto> cur @ [link_id_of (i0 + 1) (length cur)]))"
    by (simp_all add: page2_def)
  have f2: "footnotes page2 = footnotes pageA" by (simp add: page2_def)
  have pre2: "prefix lA l2" by (simp add: l2_def)
  from run_ready [OF rdy2, of S "scan R"] obtain outB pageN lN refsN where
    runB: "sub_pieces (replace_tag S) (scan R) page2 = (Inr outB, pageN)"
    and rdyN: "footnotes_list pageN = Some lN" "footnotes_references pageN = Some refsN"
    and fN: "footnotes pageN = footnotes page2" and preB: "prefix l2 lN"
    by (elim exE conjE)
  have mid: "sub_pieces (replace_tag S) (map Text pre @ Marker u # scan R) pageA
      = (Inr (pre @ anchor (i0 + 1) (link_id_of (i0 + 1) (length cur)) @ outB), pageN)"
    unfolding sub_pieces_text by (simp add: step runB)
  have total: "sub_pieces (replace_tag S) (PA @ map Text pre @ Marker u # scan R) p
      = (Inr (outA @ pre @ anchor (i0 + 1) (link_id_of (i0 + 1) (length cur)) @ outB), pageN)"
    by (simp only: sub_pieces_append [of "replace_tag S" PA "map Text pre @ Marker u # scan R" p]
        runA mid prod.case sum.case)
  have c1: "sub_pieces (replace_tag S) (scan (segments_text A)) p = (Inr outA, pageA)"
    unfolding scA by (rule runA)
  have c2: "sub_pieces (replace_tag S) (scan (segments_text A @ pre @ marker_text u label @ R)) p
         = (Inr (outA @ pre
              @ anchor (i0 + 1) (link_id_of (i0 + 1) (length (fst (get_reference_ids (PageObj pageA) u)))) @ outB),
            pageN)"
    unfolding scT cur by (rule total)
  have c3: "length (fst (get_reference_ids (PageObj pageA) u))
         = length (fst (get_reference_ids (PageObj p) u)) + markers_of u A"
    using run_count [OF known l r runA] by (simp add: PA_def count_segment_pieces)
  have c6: "footnotes pageN = footnotes p" using fN f2 fA by simp
  have c7: "prefix l lN"
    using preA pre2 preB by (blast intro: prefix_order.trans)
  have c8: "0 < i0 + 1" by simp
  have idx: "list_index lN fn = Inr i0" using i0 preB by (rule list_index_prefix)
  have c9: "list_index lN fn = Inr ((i0 + 1) - 1)" using idx by simp
  have cnt: "count_list (PA @ map Text pre @ Marker u # scan R) (Marker u)
      = markers_of u A + 1 + count_list (scan R) (Marker u)"
    by (simp add: PA_def count_segment_pieces count_text_pieces)
  have c10: "fst (get_reference_ids (PageObj pageN) u)
         = fst (get_reference_ids (PageObj p) u)
           @ map (link_id_of (i0 + 1))
               [length (fst (get_reference_ids (PageObj p) u)) ..<
                length (fst (get_reference_ids (PageObj p) u))
                  + (markers_of u A + 1 + count_list (scan R) (Marker u))]"
    using run_refs [OF known l r total rdyN(1) idx] unfolding cnt .
  have c11: "A = [] \<longrightarrow> outA = []
           \<and> list_index (if fn \<notin> set l then l @ [fn] else l) fn = Inr ((i0 + 1) - 1)"
  proof
    assume "A = []"
    then have "PA = []" by (simp add: PA_def)
    with runA have e: "outA = []" "pageA = p" by simp_all
    with rdyA(1) l have "lA = l" by simp
    then have "l2 = (if fn \<notin> set l then l @ [fn] else l)" unfolding l2_def by simp
    with i0 have "list_index (if fn \<notin> set l then l @ [fn] else l) fn = Inr i0" by simp
    then have "list_index (if fn \<notin> set l then l @ [fn] else l) fn = Inr ((i0 + 1) - 1)"
      by simp
    with e(1) show "outA = []
           \<and> list_index (if fn \<notin> set l then l @ [fn] else l) fn = Inr ((i0 + 1) - 1)"
      by (rule conjI)
  qed
  have c12: "\<not> has_marker R \<longrightarrow> outB = R"
  proof
    assume "\<not> has_marker R"
    then have "scan R = map Text R" by (rule scan_no_marker)
    with runB show "outB = R" by (simp add: sub_pieces_only_text)
  qed
  from c1 c2 c3 rdyN c6 c7 c8 c9 c10 c11 c12 show ?thesis by (intro exI conjI)
qed

lemma ids_ensure_attributes:
  "fst (get_reference_ids (PageObj (ensure_attributes page)) u)
     = fst (get_reference_ids (PageObj page) u)"
  by (simp add: get_reference_ids_entries ensure_attributes_entries)

lemma link_id_text:
  "link_id_of i = (\<lambda>k. ''footnote-source-'' @ str_nat i @ ''-'' @ str_nat k)"
  by (intro ext) (simp add: link_id_of_def)

section \<open>The feature list of a block\<close>

lemma count_list_pos: "x \<in> set xs \<Longrightarrow> 1 \<le> count_list xs x"
  by (induction xs) auto

text \<open>
  C7. The constructor keeps the caller's features in the caller's order and appends
  \<open>footnotes\<close> exactly when it is missing; without features, or with an empty list, the
  result is the single feature \<open>footnotes\<close>; the constructor adds no second copy, and
  constructing again from the result changes nothing.
\<close>

theorem init_features:
  "features (init kw) =
     (let fs = (case kw of None \<Rightarrow> [] | Some l \<Rightarrow> l) in
      if ''footnotes'' \<in> set fs then fs else fs @ [''footnotes''])
   \<and> features (init None) = [''footnotes'']
   \<and> features (init (Some [])) = [''footnotes'']
   \<and> count_list (features (init kw)) ''footnotes''
       = max 1 (count_list (case kw of None \<Rightarrow> [] | Some l \<Rightarrow> l) ''footnotes'')
   \<and> features (init (Some (features (init kw)))) = features (init kw)"
  by (cases kw) (auto simp: init_def Let_def max_def dest: count_list_pos)

theorem init_features_witness:
  "features (init (Some [''h1'', ''h2''])) = [''h1'', ''h2'', ''footnotes'']
   \<and> count_list (features (init (Some [''h1'', ''h2'']))) ''footnotes'' = 1"
  using init_features [of "Some [''h1'', ''h2'']"] by simp

section \<open>The template filter reads and does not write\<close>

text \<open>
  C9. For a value and an identifier, \<open>get_reference_ids\<close> returns the anchor ids recorded
  under the identifier, in their order; it returns the empty list when the identifier has
  no entry and when the value has no attribute \<open>footnotes_references\<close>. The function is
  total: no input makes it raise.
\<close>

theorem get_reference_ids_result:
  "fst (get_reference_ids v u) =
     (case v of
        PageObj page \<Rightarrow>
          (case footnotes_references page of
             None \<Rightarrow> []
           | Some d \<Rightarrow> (case d u of None \<Rightarrow> [] | Some ids \<Rightarrow> ids))
      | OtherObj \<Rightarrow> [])"
  by (simp add: get_reference_ids_def dd_get_def split: pyobj.splits option.splits)

theorem get_reference_ids_result_witness:
  "fst (get_reference_ids
     (PageObj \<lparr>footnotes = [], footnotes_list = Some [],
               footnotes_references = Some [''u1'' \<mapsto> [''footnote-source-1-0'', ''footnote-source-1-1'']]\<rparr>) ''u1'')
   = [''footnote-source-1-0'', ''footnote-source-1-1'']
   \<and> fst (get_reference_ids
     (PageObj \<lparr>footnotes = [], footnotes_list = Some [],
               footnotes_references = Some [''u1'' \<mapsto> [''footnote-source-1-0'', ''footnote-source-1-1'']]\<rparr>) ''u2'') = []
   \<and> fst (get_reference_ids (PageObj \<lparr>footnotes = [], footnotes_list = None, footnotes_references = None\<rparr>) ''u1'') = []
   \<and> fst (get_reference_ids OtherObj ''u1'') = []"
  using get_reference_ids_result [of "PageObj \<lparr>footnotes = [], footnotes_list = Some [],
               footnotes_references = Some [''u1'' \<mapsto> [''footnote-source-1-0'', ''footnote-source-1-1'']]\<rparr>" "''u1''"]
    get_reference_ids_result [of "PageObj \<lparr>footnotes = [], footnotes_list = Some [],
               footnotes_references = Some [''u1'' \<mapsto> [''footnote-source-1-0'', ''footnote-source-1-1'']]\<rparr>" "''u2''"]
    get_reference_ids_result [of "PageObj \<lparr>footnotes = [], footnotes_list = None, footnotes_references = None\<rparr>" "''u1''"]
    get_reference_ids_result [of OtherObj "''u1''"]
  by simp

text \<open>Indexing the mapping, which the filter does not do, would add an entry.\<close>

lemma dd_getitem_inserts: "d k = None \<Longrightarrow> snd (dd_getitem d k) = d(k \<mapsto> [])"
  by (simp add: dd_getitem_def)

text \<open>
  C10. \<open>get_reference_ids\<close> leaves the value as it was: the mapping
  \<open>footnotes_references\<close> is the same after the call, also for an identifier without
  entry, the lookup being \<open>.get\<close>.
\<close>

theorem get_reference_ids_read_only:
  "snd (get_reference_ids v u) = v"
  by (simp add: get_reference_ids_def dd_get_def split: pyobj.splits option.splits)

theorem get_reference_ids_read_only_witness:
  "snd (get_reference_ids (PageObj \<lparr>footnotes = [], footnotes_list = Some [], footnotes_references = Some Map.empty\<rparr>) ''u1'')
   = PageObj \<lparr>footnotes = [], footnotes_list = Some [], footnotes_references = Some Map.empty\<rparr>"
  using get_reference_ids_read_only [of "PageObj \<lparr>footnotes = [], footnotes_list = Some [], footnotes_references = Some Map.empty\<rparr>" "''u1''"]
  by simp

section \<open>Rendering without a page\<close>

text \<open>
  C5. When the context of the call gives no page (there is no context, it has no entry
  \<open>page\<close>, or the entry is not a \<open>Page\<close> object), \<open>replace_footnote_tags\<close> returns the
  HTML it was given, markers included, and neither the block nor any object of the heap
  changes.
\<close>

theorem no_page_passthrough:
  assumes "page_of (case ctx of None \<Rightarrow> Map.empty | Some c \<Rightarrow> c) h = None"
  shows "replace_footnote_tags self v html ctx h = (Inr html, self, h)"
  using assms by (rule replace_footnote_tags_no_page)

theorem no_page_passthrough_witness:
  \<open>page_of (case None of None \<Rightarrow> Map.empty | Some c \<Rightarrow> c)
      [0 \<mapsto> PageObj \<lparr>footnotes = [], footnotes_list = None, footnotes_references = None\<rparr>] = None
   \<and> replace_footnote_tags (init None) NoneVal (Str ''<footnote id="a">[a]</footnote>'') None
        [0 \<mapsto> PageObj \<lparr>footnotes = [], footnotes_list = None, footnotes_references = None\<rparr>]
     = (Inr (Str ''<footnote id="a">[a]</footnote>''), init None,
        [0 \<mapsto> PageObj \<lparr>footnotes = [], footnotes_list = None, footnotes_references = None\<rparr>])
   \<and> page_of (case Some [''page'' \<mapsto> Ref 1] of None \<Rightarrow> Map.empty | Some c \<Rightarrow> c) [1 \<mapsto> OtherObj] = None
   \<and> replace_footnote_tags (init None) NoneVal (Str ''<footnote id="a">[a]</footnote>'')
        (Some [''page'' \<mapsto> Ref 1]) [1 \<mapsto> OtherObj]
     = (Inr (Str ''<footnote id="a">[a]</footnote>''), init None, [1 \<mapsto> OtherObj])\<close>
proof -
  have 1: "page_of (case None of None \<Rightarrow> Map.empty | Some c \<Rightarrow> c)
      [0 \<mapsto> PageObj \<lparr>footnotes = [], footnotes_list = None, footnotes_references = None\<rparr>] = None"
    by (simp add: page_of_def)
  have 2: "page_of (case Some [''page'' \<mapsto> Ref 1] of None \<Rightarrow> Map.empty | Some c \<Rightarrow> c) [1 \<mapsto> OtherObj] = None"
    by (simp add: page_of_def)
  show ?thesis
    using 1 2 no_page_passthrough [OF 1] no_page_passthrough [OF 2] by simp
qed

section \<open>Safe strings\<close>

text \<open>
  Without a page the call hands back the very string it was given, and a plain string
  stays plain.
\<close>

theorem passthrough_not_marked_safe:
  "fst (replace_footnote_tags (init None) NoneVal (Str ''foo'') None Map.empty) = Inr (Str ''foo'')
   \<and> \<not> is_safe (Str ''foo'')"
  by (simp add: replace_footnote_tags_def page_of_def get_context_def)

text \<open>
  C8, as the code has it. When the context gives a page, the call returns a string marked
  safe; when it gives none, the call returns its input as it is, marked safe only if the
  caller had marked it.
\<close>

theorem result_safe_with_page:
  "(page_of (case ctx of None \<Rightarrow> Map.empty | Some c \<Rightarrow> c) h \<noteq> None \<longrightarrow>
      (\<exists>out. fst (replace_footnote_tags self v html ctx h) = Inr out \<and> is_safe out))
   \<and> (page_of (case ctx of None \<Rightarrow> Map.empty | Some c \<Rightarrow> c) h = None \<longrightarrow>
      fst (replace_footnote_tags self v html ctx h) = Inr html)"
proof (intro conjI impI)
  assume "page_of (case ctx of None \<Rightarrow> Map.empty | Some c \<Rightarrow> c) h \<noteq> None"
  then obtain a page where "page_of (case ctx of None \<Rightarrow> Map.empty | Some c \<Rightarrow> c) h = Some (a, page)"
    by (cases "page_of (case ctx of None \<Rightarrow> Map.empty | Some c \<Rightarrow> c) h") auto
  from replace_footnote_tags_run [OF this, of self v html] obtain out where
    "fst (replace_footnote_tags self v html ctx h) = Inr (SafeString out)"
    by (elim exE conjE) simp
  then show "\<exists>out. fst (replace_footnote_tags self v html ctx h) = Inr out \<and> is_safe out"
    by simp
next
  assume "page_of (case ctx of None \<Rightarrow> Map.empty | Some c \<Rightarrow> c) h = None"
  then show "fst (replace_footnote_tags self v html ctx h) = Inr html"
    by (simp add: replace_footnote_tags_no_page)
qed

theorem result_safe_with_page_witness:
  "page_of (case Some [''page'' \<mapsto> Ref 0] of None \<Rightarrow> Map.empty | Some c \<Rightarrow> c)
      [0 \<mapsto> PageObj \<lparr>footnotes = [], footnotes_list = None, footnotes_references = None\<rparr>] \<noteq> None
   \<and> (\<exists>out. fst (replace_footnote_tags (init None) NoneVal (Str ''foo'') (Some [''page'' \<mapsto> Ref 0])
          [0 \<mapsto> PageObj \<lparr>footnotes = [], footnotes_list = None, footnotes_references = None\<rparr>]) = Inr out
        \<and> is_safe out)"
  using result_safe_with_page [of "Some [''page'' \<mapsto> Ref 0]"
      "[0 \<mapsto> PageObj \<lparr>footnotes = [], footnotes_list = None, footnotes_references = None\<rparr>]"
      "init None" NoneVal "Str ''foo''"]
  by (simp add: page_of_def)

section \<open>Texts without markers\<close>

text \<open>
  C6. On a text in which the pattern matches nowhere, \<open>replace_footnote_tags\<close> returns a
  string equal to the text, and the list and the mapping of every page have the entries
  they had (an attribute that was not set is now set and empty).
\<close>

theorem marker_free_identity:
  assumes "\<not> has_marker (str_of html)"
  shows "\<exists>out self' h'. replace_footnote_tags self v html ctx h = (Inr out, self', h')
     \<and> str_of out = str_of html
     \<and> (\<forall>b. case h b of
            Some (PageObj p) \<Rightarrow>
              (\<exists>p'. h' b = Some (PageObj p') \<and> list_entries p' = list_entries p
                 \<and> reference_entries p' = reference_entries p)
          | other \<Rightarrow> h' b = other)"
proof (cases "page_of (case ctx of None \<Rightarrow> Map.empty | Some c \<Rightarrow> c) h")
  case None
  have 1: "replace_footnote_tags self v html ctx h = (Inr html, self, h)"
    using None by (rule replace_footnote_tags_no_page)
  have 2: "\<forall>b. case h b of
            Some (PageObj p) \<Rightarrow>
              (\<exists>p'. h b = Some (PageObj p') \<and> list_entries p' = list_entries p
                 \<and> reference_entries p' = reference_entries p)
          | other \<Rightarrow> h b = other"
    by (simp split: option.splits pyobj.splits)
  from 1 refl 2 show ?thesis by (intro exI conjI)
next
  case (Some ap)
  obtain a page where ap: "ap = (a, page)" by (cases ap)
  note po = Some [unfolded ap]
  have sc: "scan (str_of html) = map Text (str_of html) @ []"
    using assms by (simp add: scan_no_marker)
  have run: "sub_pieces (replace_tag (self\<lparr>block_footnotes := footnotes_by_uuid (footnotes page)\<rparr>))
           (scan (str_of html)) (ensure_attributes page) = (Inr (str_of html), ensure_attributes page)"
    unfolding sc sub_pieces_text by simp
  have 1: "replace_footnote_tags self v html ctx h =
     (Inr (SafeString (str_of html)), self\<lparr>block_footnotes := footnotes_by_uuid (footnotes page)\<rparr>,
      h(a \<mapsto> PageObj (ensure_attributes page)))"
    using po run by (rule replace_footnote_tags_page)
  have ha: "h a = Some (PageObj page)" using po by (rule page_of_SomeD)
  have 2: "\<forall>b. case h b of
            Some (PageObj p) \<Rightarrow>
              (\<exists>p'. (h(a \<mapsto> PageObj (ensure_attributes page))) b = Some (PageObj p')
                 \<and> list_entries p' = list_entries p
                 \<and> reference_entries p' = reference_entries p)
          | other \<Rightarrow> (h(a \<mapsto> PageObj (ensure_attributes page))) b = other"
  proof
    fix b
    show "case h b of
            Some (PageObj p) \<Rightarrow>
              (\<exists>p'. (h(a \<mapsto> PageObj (ensure_attributes page))) b = Some (PageObj p')
                 \<and> list_entries p' = list_entries p
                 \<and> reference_entries p' = reference_entries p)
          | other \<Rightarrow> (h(a \<mapsto> PageObj (ensure_attributes page))) b = other"
    proof (cases "b = a")
      case True
      then show ?thesis using ha by (simp add: ensure_attributes_entries)
    next
      case False
      then show ?thesis by (simp split: option.splits pyobj.splits)
    qed
  qed
  have 3: "str_of (SafeString (str_of html)) = str_of html" by simp
  from 1 3 2 show ?thesis by (intro exI conjI)
qed

theorem marker_free_identity_witness:
  "\<not> has_marker (str_of (Str ''<p>This is a paragraph with no footnote.</p>''))
   \<and> (\<exists>out self' h'.
        replace_footnote_tags (init None) NoneVal (Str ''<p>This is a paragraph with no footnote.</p>'')
          (Some [''page'' \<mapsto> Ref 0])
          [0 \<mapsto> PageObj \<lparr>footnotes = [], footnotes_list = None, footnotes_references = None\<rparr>]
        = (Inr out, self', h')
      \<and> str_of out = ''<p>This is a paragraph with no footnote.</p>'')"
proof -
  have 1: "\<not> has_marker (str_of (Str ''<p>This is a paragraph with no footnote.</p>''))"
    by (simp add: match_at_def OPEN_TAG_def)
  from marker_free_identity [OF 1, of "init None" NoneVal "Some [''page'' \<mapsto> Ref 0]"
      "[0 \<mapsto> PageObj \<lparr>footnotes = [], footnotes_list = None, footnotes_references = None\<rparr>]"]
  obtain out self' h' where
    "replace_footnote_tags (init None) NoneVal (Str ''<p>This is a paragraph with no footnote.</p>'')
          (Some [''page'' \<mapsto> Ref 0])
          [0 \<mapsto> PageObj \<lparr>footnotes = [], footnotes_list = None, footnotes_references = None\<rparr>]
        = (Inr out, self', h')"
    "str_of out = str_of (Str ''<p>This is a paragraph with no footnote.</p>'')"
    by (elim exE conjE)
  then have "\<exists>out self' h'.
        replace_footnote_tags (init None) NoneVal (Str ''<p>This is a paragraph with no footnote.</p>'')
          (Some [''page'' \<mapsto> Ref 0])
          [0 \<mapsto> PageObj \<lparr>footnotes = [], footnotes_list = None, footnotes_references = None\<rparr>]
        = (Inr out, self', h')
      \<and> str_of out = ''<p>This is a paragraph with no footnote.</p>''"
    by (intro exI conjI) simp_all
  with 1 show ?thesis by (rule conjI)
qed

section \<open>Markers that resolve\<close>



section \<open>Markers that do not resolve\<close>

text \<open>
  C4. Let the text be \<open>pre\<close>, a plain marker and \<open>post\<close> as before, where \<open>ident\<close> is the
  identifier of no footnote of the page (the code knows no other way for an identifier to
  be invalid). Then no exception leaves the call, the marker contributes nothing to the
  result, and the block and the heap after the call are those of the call on \<open>post\<close>
  alone: the marker adds no entry to the list or to the mapping. When \<open>post\<close> has no
  marker the result is \<open>pre\<close> followed by \<open>post\<close> and the page has only got its two
  attributes.
\<close>

theorem unresolved_marker_removed:
  assumes po: "page_of (case ctx of None \<Rightarrow> Map.empty | Some c \<Rightarrow> c) h = Some (a, page)"
    and unk: "ident \<notin> uuid ` set (footnotes page)"
    and pre: "\<not> sublist OPEN_TAG pre" and pm: "plain_marker ident label"
    and html: "str_of html = pre @ marker_text ident label @ post"
  shows "\<exists>out2 self' h'.
       replace_footnote_tags self v html ctx h = (Inr (SafeString (pre @ out2)), self', h')
     \<and> replace_footnote_tags self v (Str post) ctx h = (Inr (SafeString out2), self', h')
     \<and> (\<not> has_marker post \<longrightarrow>
          out2 = post \<and> h' = h(a \<mapsto> PageObj (ensure_attributes page)))
     \<and> (\<forall>p. replace_tag self' ident p = (Inr [], p))"
proof -
  define self1 where "self1 = self\<lparr>block_footnotes := footnotes_by_uuid (footnotes page)\<rparr>"
  have none: "block_footnotes self1 ident = None"
    using unk by (simp add: self1_def footnotes_by_uuid_None)
  from replace_footnote_tags_run [OF po, of self v "Str post"] obtain out2 page' where
    r2: "replace_footnote_tags self v (Str post) ctx h = (Inr (SafeString out2), self1, h(a \<mapsto> PageObj page'))"
    and run2: "sub_pieces (replace_tag self1) (scan post) (ensure_attributes page) = (Inr out2, page')"
    unfolding self1_def by (elim exE conjE) simp
  have step: "replace_tag self1 ident p = (Inr [], p)" for p
    using none by (rule replace_tag_unknown)
  have run1: "sub_pieces (replace_tag self1) (scan (str_of html)) (ensure_attributes page)
      = (Inr (pre @ out2), page')"
    unfolding html run_marker [OF pre pm] step by (simp add: run2)
  have r1: "replace_footnote_tags self v html ctx h
      = (Inr (SafeString (pre @ out2)), self1, h(a \<mapsto> PageObj page'))"
    using po run1 unfolding self1_def by (rule replace_footnote_tags_page)
  have mf: "\<not> has_marker post \<longrightarrow>
      out2 = post \<and> h(a \<mapsto> PageObj page') = h(a \<mapsto> PageObj (ensure_attributes page))"
  proof
    assume "\<not> has_marker post"
    then have "scan post = map Text post @ []" by (simp add: scan_no_marker)
    then have "sub_pieces (replace_tag self1) (scan post) (ensure_attributes page)
        = (Inr post, ensure_attributes page)"
      by (simp only: sub_pieces_text) simp
    with run2 show "out2 = post \<and> h(a \<mapsto> PageObj page') = h(a \<mapsto> PageObj (ensure_attributes page))"
      by simp
  qed
  have all: "\<forall>p. replace_tag self1 ident p = (Inr [], p)" using step by (rule allI)
  from r1 r2 mf all show ?thesis by (intro exI conjI)
qed

theorem unresolved_marker_removed_witness:
  \<open>''zz'' \<notin> uuid ` set [\<lparr>pk = 1, uuid = ''f291'', footnote_text = ''This is a footnote''\<rparr>]
   \<and> fst (replace_footnote_tags (init None) NoneVal
        (Str ''<p>Text <footnote id="zz">[zz]</footnote></p>'')
        (Some [''page'' \<mapsto> Ref 0])
        [0 \<mapsto> PageObj \<lparr>footnotes = [\<lparr>pk = 1, uuid = ''f291'', footnote_text = ''This is a footnote''\<rparr>],
                          footnotes_list = None, footnotes_references = None\<rparr>])
     = Inr (SafeString ''<p>Text </p>'')\<close>
proof -
  define pg where "pg = \<lparr>footnotes = [\<lparr>pk = 1, uuid = ''f291'', footnote_text = ''This is a footnote''\<rparr>],
                          footnotes_list = None, footnotes_references = None\<rparr>"
  have h1: "page_of (case Some [''page'' \<mapsto> Ref 0] of None \<Rightarrow> Map.empty | Some c \<Rightarrow> c)
      [0 \<mapsto> PageObj pg] = Some (0, pg)"
    by (simp add: page_of_def)
  have h2: "''zz'' \<notin> uuid ` set (footnotes pg)" by (simp add: pg_def)
  have h3: "\<not> sublist OPEN_TAG ''<p>Text ''"
    unfolding OPEN_TAG_def by code_simp
  have h4: "plain_marker ''zz'' ''[zz]''"
    unfolding plain_marker_def ID_END_def CLOSE_TAG_def newline_def by code_simp
  have h5: \<open>str_of (Str ''<p>Text <footnote id="zz">[zz]</footnote></p>'')
      = ''<p>Text '' @ marker_text ''zz'' ''[zz]'' @ ''</p>''\<close>
    by (simp add: marker_text_def OPEN_TAG_def ID_END_def CLOSE_TAG_def)
  have f3: "\<not> has_marker ''</p>''" by (simp add: match_at_def OPEN_TAG_def)
  from unresolved_marker_removed [OF h1 h2 h3 h4 h5, of "init None" NoneVal] f3
  have \<open>fst (replace_footnote_tags (init None) NoneVal
        (Str ''<p>Text <footnote id="zz">[zz]</footnote></p>'')
        (Some [''page'' \<mapsto> Ref 0]) [0 \<mapsto> PageObj pg])
     = Inr (SafeString ''<p>Text </p>'')\<close>
    by (elim exE conjE) simp
  with h2 show ?thesis unfolding pg_def by simp
qed

section \<open>Repeated references\<close>

text \<open>
  C2. Two blocks are rendered one after the other on the same page object: the second call
  of \<open>replace_footnote_tags\<close> runs on the heap that the first call left. In each of the
  two texts take a marker for \<open>u\<close>, the identifier of a footnote of the page, that comes after
  any number of plain segments (\<open>A1\<close>, \<open>A2\<close>) and a stretch of text in which no marker
  opens, and before any rest (\<open>R1\<close>, \<open>R2\<close>). Each call returns the text in which this
  marker has become \<open><a href="#footnote-i" id="footnote-source-i-k"><sup>[i]</sup></a>\<close>,
  with the same \<open>i\<close> in both blocks: the position of the footnote in the page's list,
  counted from 1. The occurrence \<open>k\<close> is the number of anchor ids recorded for \<open>u\<close> on
  the page when the marker is reached, which is what the page holds after the segments
  before the marker alone have been rendered. In the first block it is the number recorded
  before the call plus the number of markers for \<open>u\<close> before this one; in the second block
  it is the first block's \<open>k\<close>, plus one, plus the markers for \<open>u\<close> in the rest of the first
  block, plus those before this one in the second. After both calls the anchor ids of
  \<open>u\<close> are the earlier ones followed by \<open>footnote-source-i-k\<close> for \<open>k\<close> counting up by
  one from their number: 0, 1, 2, ... on a fresh page.
\<close>

theorem repeated_references:
  assumes po: "page_of (case ctx of None \<Rightarrow> Map.empty | Some c \<Rightarrow> c) h = Some (a, page)"
    and known: "footnotes_by_uuid (footnotes page) u = Some fn"
    and A1: "list_all plain_segment A1"
    and pre1: "\<not> sublist OPEN_TAG pre1" and pm1: "plain_marker u label1"
    and html1: "str_of html1 = segments_text A1 @ pre1 @ marker_text u label1 @ R1"
    and A2: "list_all plain_segment A2"
    and pre2: "\<not> sublist OPEN_TAG pre2" and pm2: "plain_marker u label2"
    and html2: "str_of html2 = segments_text A2 @ pre2 @ marker_text u label2 @ R2"
  shows \<open>\<exists>i k1 k2 outA1 outB1 outA2 outB2 pageA1 page1 pageA2 page2 lN.
       replace_footnote_tags self v (Str (segments_text A1)) ctx h
         = (Inr (SafeString outA1), self\<lparr>block_footnotes := footnotes_by_uuid (footnotes page)\<rparr>, h(a \<mapsto> PageObj pageA1))
     \<and> k1 = length (fst (get_reference_ids (PageObj pageA1) u))
     \<and> replace_footnote_tags self v html1 ctx h
         = (Inr (SafeString (outA1 @ pre1 @ ''<a href="#footnote-'' @ str_nat i
              @ ''" id="footnote-source-'' @ str_nat i @ ''-'' @ str_nat k1
              @ ''"><sup>['' @ str_nat i @ '']</sup></a>'' @ outB1)),
            self\<lparr>block_footnotes := footnotes_by_uuid (footnotes page)\<rparr>, h(a \<mapsto> PageObj page1))
     \<and> replace_footnote_tags self' v' (Str (segments_text A2)) ctx (h(a \<mapsto> PageObj page1))
         = (Inr (SafeString outA2), self'\<lparr>block_footnotes := footnotes_by_uuid (footnotes page)\<rparr>, h(a \<mapsto> PageObj pageA2))
     \<and> k2 = length (fst (get_reference_ids (PageObj pageA2) u))
     \<and> replace_footnote_tags self' v' html2 ctx (h(a \<mapsto> PageObj page1))
         = (Inr (SafeString (outA2 @ pre2 @ ''<a href="#footnote-'' @ str_nat i
              @ ''" id="footnote-source-'' @ str_nat i @ ''-'' @ str_nat k2
              @ ''"><sup>['' @ str_nat i @ '']</sup></a>'' @ outB2)),
            self'\<lparr>block_footnotes := footnotes_by_uuid (footnotes page)\<rparr>, h(a \<mapsto> PageObj page2))
     \<and> k1 = length (fst (get_reference_ids (PageObj page) u)) + markers_of u A1
     \<and> k2 = k1 + 1 + count_list (scan R1) (Marker u) + markers_of u A2
     \<and> 0 < i \<and> footnotes_list page2 = Some lN \<and> list_index lN fn = Inr (i - 1)
     \<and> fst (get_reference_ids (PageObj page2) u)
         = fst (get_reference_ids (PageObj page) u)
           @ map (\<lambda>k. ''footnote-source-'' @ str_nat i @ ''-'' @ str_nat k)
               [length (fst (get_reference_ids (PageObj page) u)) ..<
                k2 + 1 + count_list (scan R2) (Marker u)]
     \<and> (A1 = [] \<longrightarrow> outA1 = []
           \<and> list_index (if fn \<notin> set (list_entries page) then list_entries page @ [fn]
                          else list_entries page) fn = Inr (i - 1))
     \<and> (A2 = [] \<longrightarrow> outA2 = [])
     \<and> (\<not> has_marker R1 \<longrightarrow> outB1 = R1)
     \<and> (\<not> has_marker R2 \<longrightarrow> outB2 = R2)\<close>
proof -
  define S1 where "S1 = self\<lparr>block_footnotes := footnotes_by_uuid (footnotes page)\<rparr>"
  define ids0 where "ids0 = fst (get_reference_ids (PageObj page) u)"
  define m1 where "m1 = markers_of u A1"
  define c1 where "c1 = count_list (scan R1) (Marker u)"
  define m2 where "m2 = markers_of u A2"
  define c2 where "c2 = count_list (scan R2) (Marker u)"
  have kn1: "block_footnotes S1 u = Some fn" using known by (simp add: S1_def)
  from block_reference [OF kn1 ensure_attributes_list [of page] ensure_attributes_references [of page]
      A1 pre1 pm1, of R1]
  obtain i1 outA1 outB1 pageA1 page1 lN1 refsN1 where
    runA1: "sub_pieces (replace_tag S1) (scan (segments_text A1)) (ensure_attributes page)
        = (Inr outA1, pageA1)"
    and run1: "sub_pieces (replace_tag S1) (scan (segments_text A1 @ pre1 @ marker_text u label1 @ R1))
          (ensure_attributes page)
        = (Inr (outA1 @ pre1
              @ anchor i1 (link_id_of i1 (length (fst (get_reference_ids (PageObj pageA1) u)))) @ outB1),
            page1)"
    and k1: "length (fst (get_reference_ids (PageObj pageA1) u)) = length ids0 + m1"
    and rdy1: "footnotes_list page1 = Some lN1" "footnotes_references page1 = Some refsN1"
    and fp1: "footnotes page1 = footnotes page"
    and pos1: "0 < i1" and idx1: "list_index lN1 fn = Inr (i1 - 1)"
    and ids1: "fst (get_reference_ids (PageObj page1) u)
         = ids0 @ map (link_id_of i1) [length ids0 ..< length ids0 + (m1 + 1 + c1)]"
    and e1: "A1 = [] \<longrightarrow> outA1 = []
           \<and> list_index (if fn \<notin> set (list_entries page) then list_entries page @ [fn]
                          else list_entries page) fn = Inr (i1 - 1)"
    and mf1: "\<not> has_marker R1 \<longrightarrow> outB1 = R1"
    unfolding ids_ensure_attributes ensure_attributes_footnotes ids0_def m1_def c1_def
    by (elim exE conjE)
  define S2 where "S2 = self'\<lparr>block_footnotes := footnotes_by_uuid (footnotes page1)\<rparr>"
  have kn2: "block_footnotes S2 u = Some fn" using known by (simp add: S2_def fp1)
  have ea1: "ensure_attributes page1 = page1" using rdy1 by (rule ensure_attributes_ready)
  have po2: "page_of (case ctx of None \<Rightarrow> Map.empty | Some c \<Rightarrow> c) (h(a \<mapsto> PageObj page1))
      = Some (a, page1)"
    using po by (rule page_of_update)
  from block_reference [OF kn2 rdy1 A2 pre2 pm2, of R2]
  obtain i2 outA2 outB2 pageA2 page2 lN2 where
    runA2: "sub_pieces (replace_tag S2) (scan (segments_text A2)) page1 = (Inr outA2, pageA2)"
    and run2: "sub_pieces (replace_tag S2) (scan (segments_text A2 @ pre2 @ marker_text u label2 @ R2))
          page1
        = (Inr (outA2 @ pre2
              @ anchor i2 (link_id_of i2 (length (fst (get_reference_ids (PageObj pageA2) u)))) @ outB2),
            page2)"
    and k2: "length (fst (get_reference_ids (PageObj pageA2) u))
        = length (fst (get_reference_ids (PageObj page1) u)) + m2"
    and lN2: "footnotes_list page2 = Some lN2" and pre12: "prefix lN1 lN2"
    and pos2: "0 < i2" and idx2: "list_index lN2 fn = Inr (i2 - 1)"
    and ids2: "fst (get_reference_ids (PageObj page2) u)
         = fst (get_reference_ids (PageObj page1) u)
           @ map (link_id_of i2)
               [length (fst (get_reference_ids (PageObj page1) u)) ..<
                length (fst (get_reference_ids (PageObj page1) u)) + (m2 + 1 + c2)]"
    and e2: "A2 = [] \<longrightarrow> outA2 = []
           \<and> list_index (if fn \<notin> set lN1 then lN1 @ [fn] else lN1) fn = Inr (i2 - 1)"
    and mf2: "\<not> has_marker R2 \<longrightarrow> outB2 = R2"
    unfolding m2_def c2_def by (elim exE conjE)
  have "list_index lN2 fn = Inr (i1 - 1)" using idx1 pre12 by (rule list_index_prefix)
  with idx2 pos1 pos2 have same: "i2 = i1" by simp
  have len1: "length (fst (get_reference_ids (PageObj page1) u)) = length ids0 + (m1 + 1 + c1)"
    unfolding ids1 by simp
  have rA1: "replace_footnote_tags self v (Str (segments_text A1)) ctx h
         = (Inr (SafeString outA1), S1, h(a \<mapsto> PageObj pageA1))"
    unfolding S1_def
    by (rule replace_footnote_tags_page [OF po]) (simp add: runA1 [unfolded S1_def])
  have r1: "replace_footnote_tags self v html1 ctx h
         = (Inr (SafeString (outA1 @ pre1
              @ anchor i1 (link_id_of i1 (length (fst (get_reference_ids (PageObj pageA1) u)))) @ outB1)),
            S1, h(a \<mapsto> PageObj page1))"
    unfolding S1_def
    by (rule replace_footnote_tags_page [OF po]) (simp add: html1 run1 [unfolded S1_def])
  have rA2: "replace_footnote_tags self' v' (Str (segments_text A2)) ctx (h(a \<mapsto> PageObj page1))
         = (Inr (SafeString outA2), S2, (h(a \<mapsto> PageObj page1))(a \<mapsto> PageObj pageA2))"
    unfolding S2_def
    by (rule replace_footnote_tags_page [OF po2]) (simp add: ea1 runA2 [unfolded S2_def])
  have r2: "replace_footnote_tags self' v' html2 ctx (h(a \<mapsto> PageObj page1))
         = (Inr (SafeString (outA2 @ pre2
              @ anchor i2 (link_id_of i2 (length (fst (get_reference_ids (PageObj pageA2) u)))) @ outB2)),
            S2, (h(a \<mapsto> PageObj page1))(a \<mapsto> PageObj page2))"
    unfolding S2_def
    by (rule replace_footnote_tags_page [OF po2]) (simp add: ea1 html2 run2 [unfolded S2_def])
  define k1' where "k1' = length (fst (get_reference_ids (PageObj pageA1) u))"
  define k2' where "k2' = length (fst (get_reference_ids (PageObj pageA2) u))"
  have t1: "replace_footnote_tags self v (Str (segments_text A1)) ctx h
         = (Inr (SafeString outA1), S1, h(a \<mapsto> PageObj pageA1))" by (rule rA1)
  have t2: "k1' = length (fst (get_reference_ids (PageObj pageA1) u))" by (rule k1'_def)
  have t3: \<open>replace_footnote_tags self v html1 ctx h
         = (Inr (SafeString (outA1 @ pre1 @ ''<a href="#footnote-'' @ str_nat i1
              @ ''" id="footnote-source-'' @ str_nat i1 @ ''-'' @ str_nat k1'
              @ ''"><sup>['' @ str_nat i1 @ '']</sup></a>'' @ outB1)),
            S1, h(a \<mapsto> PageObj page1))\<close>
    unfolding r1 k1'_def anchor_text by simp
  have t4: "replace_footnote_tags self' v' (Str (segments_text A2)) ctx (h(a \<mapsto> PageObj page1))
         = (Inr (SafeString outA2), self'\<lparr>block_footnotes := footnotes_by_uuid (footnotes page)\<rparr>,
            h(a \<mapsto> PageObj pageA2))"
    unfolding rA2 S2_def fp1 by simp
  have t5: "k2' = length (fst (get_reference_ids (PageObj pageA2) u))" by (rule k2'_def)
  have t6: \<open>replace_footnote_tags self' v' html2 ctx (h(a \<mapsto> PageObj page1))
         = (Inr (SafeString (outA2 @ pre2 @ ''<a href="#footnote-'' @ str_nat i1
              @ ''" id="footnote-source-'' @ str_nat i1 @ ''-'' @ str_nat k2'
              @ ''"><sup>['' @ str_nat i1 @ '']</sup></a>'' @ outB2)),
            self'\<lparr>block_footnotes := footnotes_by_uuid (footnotes page)\<rparr>,
            h(a \<mapsto> PageObj page2))\<close>
    unfolding r2 k2'_def anchor_text same S2_def fp1 by simp
  have t7: "k1' = length (fst (get_reference_ids (PageObj page) u)) + markers_of u A1"
    unfolding k1'_def k1 ids0_def m1_def by (rule refl)
  have t8: "k2' = k1' + 1 + count_list (scan R1) (Marker u) + markers_of u A2"
    unfolding k2'_def k1'_def k2 k1 len1 m1_def c1_def m2_def by simp
  have t11: "list_index lN2 fn = Inr (i1 - 1)" using idx2 same by simp
  have up: "[length ids0 ..< length ids0 + (m1 + 1 + c1) + (m2 + 1 + c2)]
      = [length ids0 ..< length ids0 + (m1 + 1 + c1)]
        @ [length ids0 + (m1 + 1 + c1) ..< length ids0 + (m1 + 1 + c1) + (m2 + 1 + c2)]"
    by (rule upt_add_eq_append) simp
  have "fst (get_reference_ids (PageObj page2) u)
      = ids0 @ map (link_id_of i1) [length ids0 ..< length ids0 + (m1 + 1 + c1) + (m2 + 1 + c2)]"
    unfolding ids2 len1 same up unfolding ids1 by simp
  moreover have "k2' + 1 + count_list (scan R2) (Marker u)
      = length ids0 + (m1 + 1 + c1) + (m2 + 1 + c2)"
    unfolding t8 t7 ids0_def m1_def c1_def m2_def c2_def by simp
  ultimately have t12: "fst (get_reference_ids (PageObj page2) u)
         = fst (get_reference_ids (PageObj page) u)
           @ map (\<lambda>k. ''footnote-source-'' @ str_nat i1 @ ''-'' @ str_nat k)
               [length (fst (get_reference_ids (PageObj page) u)) ..<
                k2' + 1 + count_list (scan R2) (Marker u)]"
    unfolding ids0_def link_id_text by simp
  have t14: "A2 = [] \<longrightarrow> outA2 = []" using e2 by simp
  from t1 [unfolded S1_def] t2 t3 [unfolded S1_def] t4 t5 t6 t7 t8 pos1 lN2 t11 t12 e1 t14 mf1 mf2
  show ?thesis by (intro exI conjI)
qed

theorem repeated_references_witness:
  \<open>plain_marker ''a'' ''[a]''
   \<and> fst (replace_footnote_tags (init None) NoneVal
        (Str ''<p>One <footnote id="a">[a]</footnote></p>'')
        (Some [''page'' \<mapsto> Ref 0])
        [0 \<mapsto> PageObj \<lparr>footnotes = [\<lparr>pk = 1, uuid = ''a'', footnote_text = ''A note''\<rparr>],
                          footnotes_list = None, footnotes_references = None\<rparr>])
     = Inr (SafeString ''<p>One <a href="#footnote-1" id="footnote-source-1-0"><sup>[1]</sup></a></p>'')
   \<and> fst (replace_footnote_tags (init (Some [''bold''])) NoneVal
        (Str ''<p>Two <footnote id="a">[a]</footnote></p>'')
        (Some [''page'' \<mapsto> Ref 0])
        (snd (snd (replace_footnote_tags (init None) NoneVal
           (Str ''<p>One <footnote id="a">[a]</footnote></p>'')
           (Some [''page'' \<mapsto> Ref 0])
           [0 \<mapsto> PageObj \<lparr>footnotes = [\<lparr>pk = 1, uuid = ''a'', footnote_text = ''A note''\<rparr>],
                             footnotes_list = None, footnotes_references = None\<rparr>]))))
     = Inr (SafeString ''<p>Two <a href="#footnote-1" id="footnote-source-1-1"><sup>[1]</sup></a></p>'')\<close>
proof -
  define fn where "fn = \<lparr>pk = 1, uuid = ''a'', footnote_text = ''A note''\<rparr>"
  define pg where "pg = \<lparr>footnotes = [fn], footnotes_list = None, footnotes_references = None\<rparr>"
  define C where "C = Some [''page'' \<mapsto> Ref (0 :: nat)]"
  define H where "H = [(0 :: nat) \<mapsto> PageObj pg]"
  define html1 where \<open>html1 = Str ''<p>One <footnote id="a">[a]</footnote></p>''\<close>
  define html2 where \<open>html2 = Str ''<p>Two <footnote id="a">[a]</footnote></p>''\<close>
  define B1 where "B1 = init None"
  define B2 where "B2 = init (Some [''bold''])"
  have h1: "page_of (case C of None \<Rightarrow> Map.empty | Some c \<Rightarrow> c) H = Some (0, pg)"
    by (simp add: page_of_def C_def H_def)
  have h2: "footnotes_by_uuid (footnotes pg) ''a'' = Some fn"
    by (simp add: footnotes_by_uuid_def pg_def fn_def)
  have h3: "list_all plain_segment []" by simp
  have h4: "\<not> sublist OPEN_TAG ''<p>One ''" unfolding OPEN_TAG_def by code_simp
  have h5: "plain_marker ''a'' ''[a]''"
    unfolding plain_marker_def ID_END_def CLOSE_TAG_def newline_def by code_simp
  have h6: "str_of html1 = segments_text [] @ ''<p>One '' @ marker_text ''a'' ''[a]'' @ ''</p>''"
    by (simp add: html1_def segments_text_def marker_text_def OPEN_TAG_def ID_END_def CLOSE_TAG_def)
  have h7: "\<not> sublist OPEN_TAG ''<p>Two ''" unfolding OPEN_TAG_def by code_simp
  have h8: "str_of html2 = segments_text [] @ ''<p>Two '' @ marker_text ''a'' ''[a]'' @ ''</p>''"
    by (simp add: html2_def segments_text_def marker_text_def OPEN_TAG_def ID_END_def CLOSE_TAG_def)
  have f1: "list_entries pg = []" by (simp add: list_entries_def pg_def)
  have f2: "fst (get_reference_ids (PageObj pg) ''a'') = []"
    by (simp add: get_reference_ids_def pg_def)
  have f3: "\<not> has_marker ''</p>''" by (simp add: match_at_def OPEN_TAG_def)
  from f3 have "scan ''</p>'' = map Text ''</p>''" by (rule scan_no_marker)
  then have f4: "count_list (scan ''</p>'') (Marker ''a'') = 0"
    by (simp only: count_text_pieces)
  have f5: "markers_of ''a'' [] = 0" by (simp add: markers_of_def)
  from repeated_references [OF h1 h2 h3 h4 h5 h6 h3 h7 h5 h8, where self = B1 and v = NoneVal
      and self' = B2 and v' = NoneVal]
  obtain i k1 k2 outA1 outB1 outA2 outB2 page1 page2 where
    r1: \<open>replace_footnote_tags B1 NoneVal html1 C H
         = (Inr (SafeString (outA1 @ ''<p>One '' @ ''<a href="#footnote-'' @ str_nat i
              @ ''" id="footnote-source-'' @ str_nat i @ ''-'' @ str_nat k1
              @ ''"><sup>['' @ str_nat i @ '']</sup></a>'' @ outB1)),
            B1\<lparr>block_footnotes := footnotes_by_uuid (footnotes pg)\<rparr>, H(0 \<mapsto> PageObj page1))\<close>
    and r2: \<open>replace_footnote_tags B2 NoneVal html2 C (H(0 \<mapsto> PageObj page1))
         = (Inr (SafeString (outA2 @ ''<p>Two '' @ ''<a href="#footnote-'' @ str_nat i
              @ ''" id="footnote-source-'' @ str_nat i @ ''-'' @ str_nat k2
              @ ''"><sup>['' @ str_nat i @ '']</sup></a>'' @ outB2)),
            B2\<lparr>block_footnotes := footnotes_by_uuid (footnotes pg)\<rparr>, H(0 \<mapsto> PageObj page2))\<close>
    and k1: "k1 = length (fst (get_reference_ids (PageObj pg) ''a'')) + markers_of ''a'' []"
    and k2: "k2 = k1 + 1 + count_list (scan ''</p>'') (Marker ''a'') + markers_of ''a'' []"
    and pos: "0 < i"
    and e1: "[] = ([] :: segment list) \<longrightarrow> outA1 = []
           \<and> list_index (if fn \<notin> set (list_entries pg) then list_entries pg @ [fn]
                          else list_entries pg) fn = Inr (i - 1)"
    and e2: "[] = ([] :: segment list) \<longrightarrow> outA2 = []"
    and m1: "\<not> has_marker ''</p>'' \<longrightarrow> outB1 = ''</p>''"
    and m2: "\<not> has_marker ''</p>'' \<longrightarrow> outB2 = ''</p>''"
    by (elim exE conjE)
  from k1 have k1z: "k1 = 0" unfolding f2 f5 by simp
  from k2 have k2o: "k2 = 1" unfolding k1z f4 f5 by simp
  from e1 have oa1: "outA1 = []" and idx: "list_index [fn] fn = Inr (i - 1)"
    unfolding f1 by simp_all
  from idx pos have i1: "i = 1" by simp
  from e2 have oa2: "outA2 = []" by simp
  from m1 f3 have ob1: "outB1 = ''</p>''" by simp
  from m2 f3 have ob2: "outB2 = ''</p>''" by simp
  have heap1: "snd (snd (replace_footnote_tags B1 NoneVal html1 C H)) = H(0 \<mapsto> PageObj page1)"
    unfolding r1 by simp
  have o1: \<open>fst (replace_footnote_tags B1 NoneVal html1 C H)
      = Inr (SafeString ''<p>One <a href="#footnote-1" id="footnote-source-1-0"><sup>[1]</sup></a></p>'')\<close>
    unfolding r1 oa1 ob1 i1 k1z by (simp add: str_nat_small)
  have o2: \<open>fst (replace_footnote_tags B2 NoneVal html2 C
        (snd (snd (replace_footnote_tags B1 NoneVal html1 C H))))
      = Inr (SafeString ''<p>Two <a href="#footnote-1" id="footnote-source-1-1"><sup>[1]</sup></a></p>'')\<close>
    unfolding heap1 r2 oa2 ob2 i1 k2o by (simp add: str_nat_small)
  from h5 o1 o2 show ?thesis
    unfolding B1_def B2_def html1_def html2_def C_def H_def pg_def fn_def
    by (intro conjI)
qed

section \<open>The numbering rule\<close>

text \<open>
  C3. \<open>process_footnote\<close> on a known footnote appends it to the page's list only when it
  is not in the list, and returns its position in the list counted from 1: the length of
  the list plus 1 for a new footnote, the old position for a seen one; a list without
  duplicates stays so. On an empty list two different footnotes, processed one after the
  other, get 1 and 2, whatever their order in the footnote set. After any run over
  markers the list is the old list followed by the newly referenced footnotes in the
  order of their first appearance, each once.
\<close>

theorem numbering_rule:
  assumes known: "block_footnotes self u = Some fn" and l: "footnotes_list page = Some l"
  shows "\<exists>i page'. process_footnote self u page = Inr (i, page')
     \<and> footnotes_list page' = Some (if fn \<notin> set l then l @ [fn] else l)
     \<and> 0 < i \<and> list_index (if fn \<notin> set l then l @ [fn] else l) fn = Inr (i - 1)
     \<and> (fn \<notin> set l \<longrightarrow> i = length l + 1)
     \<and> (fn \<in> set l \<longrightarrow> i \<le> length l)
     \<and> (distinct l \<longrightarrow> distinct (if fn \<notin> set l then l @ [fn] else l))
     \<and> (\<forall>u2 f2. l = [] \<and> block_footnotes self u2 = Some f2 \<and> f2 \<noteq> fn \<longrightarrow>
           i = 1 \<and> (\<exists>page''. process_footnote self u2 page' = Inr (2, page'')))
     \<and> (\<forall>ps refs. footnotes_references page = Some refs \<longrightarrow>
           (\<exists>out pageN. sub_pieces (replace_tag self) ps page = (Inr out, pageN)
              \<and> footnotes_list pageN
                  = Some (l @ first_seen (filter (\<lambda>f. f \<notin> set l) (referenced self ps)))
              \<and> (distinct l \<longrightarrow>
                   distinct (l @ first_seen (filter (\<lambda>f. f \<notin> set l) (referenced self ps))))))"
proof -
  define l' where "l' = (if fn \<notin> set l then l @ [fn] else l)"
  from process_footnote_known [OF known l] obtain i0 where
    i0: "list_index l' fn = Inr i0"
    and pf: "process_footnote self u page = Inr (i0 + 1, page\<lparr>footnotes_list := Some l'\<rparr>)"
    unfolding l'_def by (elim exE conjE)
  define page' where "page' = page\<lparr>footnotes_list := Some l'\<rparr>"
  have 1: "process_footnote self u page = Inr (i0 + 1, page')" unfolding page'_def by (rule pf)
  have 2: "footnotes_list page' = Some l'" by (simp add: page'_def)
  have 3: "0 < i0 + 1" by simp
  have 4: "list_index l' fn = Inr ((i0 + 1) - 1)" using i0 by simp
  have 5: "fn \<notin> set l \<longrightarrow> i0 + 1 = length l + 1"
  proof
    assume n: "fn \<notin> set l"
    then have "list_index l' fn = Inr (length l)" unfolding l'_def by (simp add: list_index_new)
    with i0 show "i0 + 1 = length l + 1" by simp
  qed
  have 6: "fn \<in> set l \<longrightarrow> i0 + 1 \<le> length l"
  proof
    assume "fn \<in> set l"
    then have "l' = l" by (simp add: l'_def)
    with list_index_bound [OF i0] show "i0 + 1 \<le> length l" by simp
  qed
  have 7: "distinct l \<longrightarrow> distinct l'" by (simp add: l'_def)
  have 8: "\<forall>u2 f2. l = [] \<and> block_footnotes self u2 = Some f2 \<and> f2 \<noteq> fn \<longrightarrow>
           i0 + 1 = 1 \<and> (\<exists>page''. process_footnote self u2 page' = Inr (2, page''))"
  proof (intro allI impI, elim conjE)
    fix u2 f2 assume e: "l = []" and k2: "block_footnotes self u2 = Some f2" and d: "f2 \<noteq> fn"
    from e have l'1: "l' = [fn]" by (simp add: l'_def)
    with i0 have z: "i0 = 0" by simp
    have lst2: "footnotes_list page' = Some [fn]" using 2 l'1 by simp
    from process_footnote_known [OF k2 lst2] obtain i2 where
      i2: "list_index (if f2 \<notin> set [fn] then [fn] @ [f2] else [fn]) f2 = Inr i2"
      and p2: "process_footnote self u2 page'
         = Inr (i2 + 1, page'\<lparr>footnotes_list := Some (if f2 \<notin> set [fn] then [fn] @ [f2] else [fn])\<rparr>)"
      by (elim exE conjE)
    from i2 d have "i2 = 1" by simp
    with p2 have "process_footnote self u2 page'
         = Inr (2, page'\<lparr>footnotes_list := Some (if f2 \<notin> set [fn] then [fn] @ [f2] else [fn])\<rparr>)"
      by simp
    then have "\<exists>page''. process_footnote self u2 page' = Inr (2, page'')" by (rule exI)
    with z show "i0 + 1 = 1 \<and> (\<exists>page''. process_footnote self u2 page' = Inr (2, page''))"
      by simp
  qed
  have 9: "\<forall>ps refs. footnotes_references page = Some refs \<longrightarrow>
           (\<exists>out pageN. sub_pieces (replace_tag self) ps page = (Inr out, pageN)
              \<and> footnotes_list pageN
                  = Some (l @ first_seen (filter (\<lambda>f. f \<notin> set l) (referenced self ps)))
              \<and> (distinct l \<longrightarrow>
                   distinct (l @ first_seen (filter (\<lambda>f. f \<notin> set l) (referenced self ps)))))"
  proof (intro allI impI)
    fix ps refs assume r: "footnotes_references page = Some refs"
    from run_list [OF l r, of self ps] obtain out pageN where
      a: "sub_pieces (replace_tag self) ps page = (Inr out, pageN)"
      and b: "footnotes_list pageN
                  = Some (l @ first_seen (filter (\<lambda>f. f \<notin> set l) (referenced self ps)))"
      by (elim exE conjE)
    have c: "distinct l \<longrightarrow>
        distinct (l @ first_seen (filter (\<lambda>f. f \<notin> set l) (referenced self ps)))"
      by (rule impI) (rule distinct_extended)
    from a b c show "\<exists>out pageN. sub_pieces (replace_tag self) ps page = (Inr out, pageN)
              \<and> footnotes_list pageN
                  = Some (l @ first_seen (filter (\<lambda>f. f \<notin> set l) (referenced self ps)))
              \<and> (distinct l \<longrightarrow>
                   distinct (l @ first_seen (filter (\<lambda>f. f \<notin> set l) (referenced self ps))))"
      by (intro exI conjI)
  qed
  from 1 2 3 4 5 6 7 8 9 show ?thesis unfolding l'_def by (intro exI conjI)
qed

theorem numbering_rule_witness:
  "block_footnotes \<lparr>features = [''footnotes''],
       block_footnotes = footnotes_by_uuid
         [\<lparr>pk = 1, uuid = ''b'', footnote_text = ''first row''\<rparr>,
          \<lparr>pk = 2, uuid = ''a'', footnote_text = ''second row''\<rparr>]\<rparr> ''a''
     = Some \<lparr>pk = 2, uuid = ''a'', footnote_text = ''second row''\<rparr>
   \<and> (\<exists>page'. process_footnote \<lparr>features = [''footnotes''],
           block_footnotes = footnotes_by_uuid
             [\<lparr>pk = 1, uuid = ''b'', footnote_text = ''first row''\<rparr>,
              \<lparr>pk = 2, uuid = ''a'', footnote_text = ''second row''\<rparr>]\<rparr> ''a''
        \<lparr>footnotes = [\<lparr>pk = 1, uuid = ''b'', footnote_text = ''first row''\<rparr>,
                      \<lparr>pk = 2, uuid = ''a'', footnote_text = ''second row''\<rparr>],
         footnotes_list = Some [], footnotes_references = Some Map.empty\<rparr> = Inr (1, page')
      \<and> footnotes_list page' = Some [\<lparr>pk = 2, uuid = ''a'', footnote_text = ''second row''\<rparr>]
      \<and> (\<exists>page''. process_footnote \<lparr>features = [''footnotes''],
           block_footnotes = footnotes_by_uuid
             [\<lparr>pk = 1, uuid = ''b'', footnote_text = ''first row''\<rparr>,
              \<lparr>pk = 2, uuid = ''a'', footnote_text = ''second row''\<rparr>]\<rparr> ''b'' page' = Inr (2, page'')))"
proof -
  define fa where "fa = \<lparr>pk = 2, uuid = ''a'', footnote_text = ''second row''\<rparr>"
  define fb where "fb = \<lparr>pk = 1, uuid = ''b'', footnote_text = ''first row''\<rparr>"
  define B where "B = \<lparr>features = [''footnotes''], block_footnotes = footnotes_by_uuid [fb, fa]\<rparr>"
  define P where "P = \<lparr>footnotes = [fb, fa], footnotes_list = Some [],
      footnotes_references = Some (Map.empty :: string \<rightharpoonup> string list)\<rparr>"
  have ne: "fb \<noteq> fa" by (simp add: fa_def fb_def)
  have ka: "block_footnotes B ''a'' = Some fa"
    by (simp add: B_def footnotes_by_uuid_def fa_def fb_def)
  have kb: "block_footnotes B ''b'' = Some fb"
    by (simp add: B_def footnotes_by_uuid_def fa_def fb_def)
  have l: "footnotes_list P = Some []" by (simp add: P_def)
  from numbering_rule [OF ka l] obtain i page' where
    pf: "process_footnote B ''a'' P = Inr (i, page')"
    and lst: "footnotes_list page' = Some (if fa \<notin> set [] then [] @ [fa] else [])"
    and two: "\<forall>u2 f2. ([]::footnote list) = [] \<and> block_footnotes B u2 = Some f2 \<and> f2 \<noteq> fa \<longrightarrow>
           i = 1 \<and> (\<exists>page''. process_footnote B u2 page' = Inr (2, page''))"
    by (elim exE conjE)
  have prem: "([]::footnote list) = [] \<and> block_footnotes B ''b'' = Some fb \<and> fb \<noteq> fa"
    using kb ne by simp
  from two [rule_format, OF prem]
  have i: "i = 1" and nxt: "\<exists>page''. process_footnote B ''b'' page' = Inr (2, page'')"
    by (rule conjunct1, rule conjunct2)
  from lst have lst': "footnotes_list page' = Some [fa]" by simp
  from pf i have pf': "process_footnote B ''a'' P = Inr (1, page')" by simp
  from pf' lst' nxt have "process_footnote B ''a'' P = Inr (1, page')
      \<and> footnotes_list page' = Some [fa]
      \<and> (\<exists>page''. process_footnote B ''b'' page' = Inr (2, page''))"
    by (intro conjI)
  then have "\<exists>page'. process_footnote B ''a'' P = Inr (1, page')
      \<and> footnotes_list page' = Some [fa]
      \<and> (\<exists>page''. process_footnote B ''b'' page' = Inr (2, page''))"
    by (rule exI)
  with ka show ?thesis unfolding B_def P_def fa_def fb_def by (rule conjI)
qed

end
